theory Spec2Isabelle
  imports Main "HOL-Library.Word" "HOL-Library.Sublist"
begin

unbundle bit_operations_syntax

section \<open>Data model of \<^verbatim>\<open>xcdat::Trie\<close>\<close>

text \<open>
  Node ids and key ids are values of the unsigned type \<^verbatim>\<open>id_type\<close>; bytes of keys, of the
  tail and of the code table are 8-bit values (\<^verbatim>\<open>char\<close>, \<^verbatim>\<open>uint8_t\<close>). Positions in a key
  or in the tail (\<^verbatim>\<open>size_t\<close>) are natural numbers: every position the code increments has
  just been read inside a buffer, so it never wraps, and a read outside a buffer is an
  error value of the model. The trailing underscore of the private members and methods of
  the source (\<^verbatim>\<open>tail_\<close>, \<^verbatim>\<open>match_suffix_\<close>, ...) is dropped, since a name cannot end with it
  here.
\<close>

type_synonym byte = "8 word"

text \<open>
  Modelled from the spec: \<^verbatim>\<open>id_type\<close> and \<^verbatim>\<open>ID_MAX\<close> are declared in a header that is not
  part of the sources at hand; the spec calls the sentinel "the maximum representable id
  value" of an unsigned integer type of fixed width, taken here as 32 bits.
\<close>

type_synonym id_type = "32 word"

definition ID_MAX :: id_type where
  "ID_MAX = - 1"

definition NOT_FOUND :: id_type where
  "NOT_FOUND = ID_MAX"

text \<open>
  A read outside the input key, the tail, a bit vector or the code table is undefined
  behaviour in the source; the model returns the error that names the buffer.
  \<^verbatim>\<open>AssertionFailed\<close> is the \<^verbatim>\<open>assert\<close> of \<^verbatim>\<open>match_suffix_\<close>.
\<close>

datatype error = KeyOutOfRange | TailOutOfRange | FlagOutOfRange | TableOutOfRange
  | AssertionFailed

text \<open>
  The BASE/CHECK backend (\<^verbatim>\<open>DacBc\<close> or \<^verbatim>\<open>FastDacBc\<close>) is an external collaborator: the Trie
  only calls its four accessors, which are the parameters of the model.
\<close>

record bc_type =
  base :: "id_type \<Rightarrow> id_type"
  check :: "id_type \<Rightarrow> id_type"
  is_leaf :: "id_type \<Rightarrow> bool"
  link :: "id_type \<Rightarrow> id_type"

text \<open>
  Modelled from the spec: the class \<^verbatim>\<open>BitVector\<close> is not part of the sources at hand. It is
  an immutable bit sequence; \<^verbatim>\<open>rank(pos)\<close> counts the set bits at the positions before
  \<^verbatim>\<open>pos\<close> (so that the ids of the terminal nodes are 0, 1, 2, ... in the order of their node
  ids) and \<^verbatim>\<open>select(k)\<close> is the position of the set bit number \<^verbatim>\<open>k\<close>, counted from 0.
\<close>

type_synonym BitVector = "bool list"

definition rank :: "BitVector \<Rightarrow> nat \<Rightarrow> nat" where
  "rank bv pos = length (filter (\<lambda>b. b) (take pos bv))"

fun select :: "BitVector \<Rightarrow> nat \<Rightarrow> nat" where
  "select [] k = 0"
| "select (b # bs) k =
     (if b then (case k of 0 \<Rightarrow> 0 | Suc j \<Rightarrow> Suc (select bs j))
      else Suc (select bs k))"

text \<open>
  The members of \<^verbatim>\<open>Trie\<close>. The code table \<^verbatim>\<open>uint8_t table_[512]\<close> is a function of a 9-bit
  index: it has exactly 512 entries.
\<close>

record Trie =
  bc :: bc_type
  terminal_flags :: BitVector
  tail :: "byte list"
  boundary_flags :: BitVector
  alphabet :: "byte list"
  table :: "9 word \<Rightarrow> byte"
  num_keys :: nat
  max_length :: nat
  bin_mode :: bool

section \<open>Private helpers\<close>

definition to_key_id :: "Trie \<Rightarrow> id_type \<Rightarrow> id_type" where
  "to_key_id t node_id = word_of_nat (rank (terminal_flags t) (unat node_id))"

definition to_node_id :: "Trie \<Rightarrow> id_type \<Rightarrow> id_type" where
  "to_node_id t string_id = word_of_nat (select (terminal_flags t) (unat string_id))"

definition code :: "Trie \<Rightarrow> byte \<Rightarrow> id_type" where
  "code t c = ucast (table t (ucast c))"

text \<open>
  \<^verbatim>\<open>edge_\<close> reads \<^verbatim>\<open>table_[(base(node_id) ^ child_id) + 256]\<close>; the index is computed in
  \<^verbatim>\<open>id_type\<close> and is inside the table only below 512.
\<close>

definition edge :: "Trie \<Rightarrow> id_type \<Rightarrow> id_type \<Rightarrow> error + byte" where
  "edge t node_id child_id =
     (let i = (base (bc t) node_id XOR child_id) + 256
      in if unat i < 512 then Inr (table t (ucast i)) else Inl TableOutOfRange)"

section \<open>Suffix matching and extraction\<close>

text \<open>The binary-mode loop of \<^verbatim>\<open>match_suffix_\<close> (a do-while: the body runs first).\<close>

function match_suffix_bin :: "Trie \<Rightarrow> byte list \<Rightarrow> nat \<Rightarrow> nat \<Rightarrow> error + bool" where
  "match_suffix_bin t key pos tail_pos =
     (if length key \<le> pos then Inl KeyOutOfRange
      else if length (tail t) \<le> tail_pos then Inl TailOutOfRange
      else if key ! pos \<noteq> tail t ! tail_pos then Inr False
      else if length (boundary_flags t) \<le> tail_pos then Inl FlagOutOfRange
      else if boundary_flags t ! tail_pos then Inr (pos + 1 = length key)
      else if pos + 1 < length key then match_suffix_bin t key (pos + 1) (tail_pos + 1)
      else Inr False)"
  by pat_completeness auto
termination
  by (relation "measure (\<lambda>(t, key, pos, tail_pos). length key - pos)") auto

declare match_suffix_bin.simps [simp del]

text \<open>The text-mode loop of \<^verbatim>\<open>match_suffix_\<close>, with the final test of the terminator.\<close>

function match_suffix_text :: "Trie \<Rightarrow> byte list \<Rightarrow> nat \<Rightarrow> nat \<Rightarrow> error + bool" where
  "match_suffix_text t key pos tail_pos =
     (if length (tail t) \<le> tail_pos then Inl TailOutOfRange
      else if tail t ! tail_pos = 0 then Inr False
      else if length key \<le> pos then Inl KeyOutOfRange
      else if key ! pos \<noteq> tail t ! tail_pos then Inr False
      else if pos + 1 < length key then match_suffix_text t key (pos + 1) (tail_pos + 1)
      else if length (tail t) \<le> tail_pos + 1 then Inl TailOutOfRange
      else Inr (tail t ! (tail_pos + 1) = 0))"
  by pat_completeness auto
termination
  by (relation "measure (\<lambda>(t, key, pos, tail_pos). length key - pos)") auto

declare match_suffix_text.simps [simp del]

definition match_suffix :: "Trie \<Rightarrow> byte list \<Rightarrow> nat \<Rightarrow> nat \<Rightarrow> error + bool" where
  "match_suffix t key pos tail_pos =
     (if length key < pos then Inl AssertionFailed
      else if pos = length key then Inr (tail_pos = 0)
      else if bin_mode t then match_suffix_bin t key pos tail_pos
      else match_suffix_text t key pos tail_pos)"

text \<open>The two loops of \<^verbatim>\<open>extract_suffix_\<close>; \<^verbatim>\<open>dec\<close> is the output buffer.\<close>

function extract_suffix_bin :: "Trie \<Rightarrow> nat \<Rightarrow> byte list \<Rightarrow> error + byte list" where
  "extract_suffix_bin t tail_pos dec =
     (if length (tail t) \<le> tail_pos then Inl TailOutOfRange
      else if length (boundary_flags t) \<le> tail_pos then Inl FlagOutOfRange
      else if boundary_flags t ! tail_pos then Inr (dec @ [tail t ! tail_pos])
      else extract_suffix_bin t (tail_pos + 1) (dec @ [tail t ! tail_pos]))"
  by pat_completeness auto
termination
  by (relation "measure (\<lambda>(t, tail_pos, dec). length (tail t) - tail_pos)") auto

declare extract_suffix_bin.simps [simp del]

function extract_suffix_text :: "Trie \<Rightarrow> nat \<Rightarrow> byte list \<Rightarrow> error + byte list" where
  "extract_suffix_text t tail_pos dec =
     (if length (tail t) \<le> tail_pos then Inl TailOutOfRange
      else if tail t ! tail_pos = 0 then Inr dec
      else extract_suffix_text t (tail_pos + 1) (dec @ [tail t ! tail_pos]))"
  by pat_completeness auto
termination
  by (relation "measure (\<lambda>(t, tail_pos, dec). length (tail t) - tail_pos)") auto

declare extract_suffix_text.simps [simp del]

definition extract_suffix :: "Trie \<Rightarrow> nat \<Rightarrow> byte list \<Rightarrow> error + byte list" where
  "extract_suffix t tail_pos dec =
     (if bin_mode t then (if tail_pos \<noteq> 0 then extract_suffix_bin t tail_pos dec else Inr dec)
      else extract_suffix_text t tail_pos dec)"

section \<open>\<^verbatim>\<open>lookup\<close>\<close>

function lookup_loop :: "Trie \<Rightarrow> byte list \<Rightarrow> nat \<Rightarrow> id_type \<Rightarrow> error + id_type" where
  "lookup_loop t key pos node_id =
     (if \<not> is_leaf (bc t) node_id then
        if pos = length key then
          (if length (terminal_flags t) \<le> unat node_id then Inl FlagOutOfRange
           else Inr (if terminal_flags t ! unat node_id then to_key_id t node_id
                     else NOT_FOUND))
        else if length key < pos then Inl KeyOutOfRange
        else
          (let child_id = base (bc t) node_id XOR code t (key ! pos)
           in if check (bc t) child_id \<noteq> node_id then Inr NOT_FOUND
              else lookup_loop t key (pos + 1) child_id)
      else
        (let tail_pos = unat (link (bc t) node_id)
         in case match_suffix t key pos tail_pos of
              Inl e \<Rightarrow> Inl e
            | Inr ok \<Rightarrow> Inr (if ok then to_key_id t node_id else NOT_FOUND)))"
  by pat_completeness auto
termination
  by (relation "measure (\<lambda>(t, key, pos, node_id). length key - pos)") auto

declare lookup_loop.simps [simp del]

definition lookup :: "Trie \<Rightarrow> byte list \<Rightarrow> error + id_type" where
  "lookup t key = lookup_loop t key 0 0"

section \<open>\<^verbatim>\<open>access\<close>\<close>

text \<open>
  The walk from a node up to the root. Nothing in the code bounds it: on a CHECK array
  with a cycle it does not return, which is the value \<open>None\<close>.
\<close>

partial_function (option) access_up ::
  "Trie \<Rightarrow> id_type \<Rightarrow> byte list \<Rightarrow> (error + byte list) option" where
  "access_up t node_id dec =
     (if node_id = 0 then Some (Inr dec)
      else
        (let parent_id = check (bc t) node_id
         in case edge t parent_id node_id of
              Inl e \<Rightarrow> Some (Inl e)
            | Inr c \<Rightarrow> access_up t parent_id (dec @ [c])))"

declare access_up.simps [code]

text \<open>The two inline tail loops of \<^verbatim>\<open>access\<close> (both do-while).\<close>

function access_tail_bin :: "Trie \<Rightarrow> nat \<Rightarrow> byte list \<Rightarrow> error + byte list" where
  "access_tail_bin t tail_pos dec =
     (if length (tail t) \<le> tail_pos then Inl TailOutOfRange
      else if length (boundary_flags t) \<le> tail_pos then Inl FlagOutOfRange
      else if \<not> boundary_flags t ! tail_pos
        then access_tail_bin t (tail_pos + 1) (dec @ [tail t ! tail_pos])
      else Inr (dec @ [tail t ! tail_pos]))"
  by pat_completeness auto
termination
  by (relation "measure (\<lambda>(t, tail_pos, dec). length (tail t) - tail_pos)") auto

declare access_tail_bin.simps [simp del]

function access_tail_text :: "Trie \<Rightarrow> nat \<Rightarrow> byte list \<Rightarrow> error + byte list" where
  "access_tail_text t tail_pos dec =
     (if length (tail t) \<le> tail_pos then Inl TailOutOfRange
      else if length (tail t) \<le> tail_pos + 1 then Inl TailOutOfRange
      else if tail t ! (tail_pos + 1) \<noteq> 0
        then access_tail_text t (tail_pos + 1) (dec @ [tail t ! tail_pos])
      else Inr (dec @ [tail t ! tail_pos]))"
  by pat_completeness auto
termination
  by (relation "measure (\<lambda>(t, tail_pos, dec). length (tail t) - tail_pos)") auto

declare access_tail_text.simps [simp del]

text \<open>
  The part of \<^verbatim>\<open>access\<close> after the reversal: the suffix is appended when the remembered
  tail position is neither 0 nor \<^verbatim>\<open>NOT_FOUND\<close>.
\<close>

definition access_tail :: "Trie \<Rightarrow> id_type \<Rightarrow> byte list \<Rightarrow> error + byte list" where
  "access_tail t tail_pos dec =
     (if tail_pos \<noteq> 0 \<and> tail_pos \<noteq> NOT_FOUND then
        (if bin_mode t then access_tail_bin t (unat tail_pos) dec
         else access_tail_text t (unat tail_pos) dec)
      else Inr dec)"

definition access :: "Trie \<Rightarrow> id_type \<Rightarrow> (error + byte list) option" where
  "access t key_id =
     (if num_keys t \<le> unat key_id then Some (Inr [])
      else
        (let node_id = to_node_id t key_id;
             tail_pos = (if is_leaf (bc t) node_id then link (bc t) node_id else NOT_FOUND)
         in case access_up t node_id [] of
              None \<Rightarrow> None
            | Some (Inl e) \<Rightarrow> Some (Inl e)
            | Some (Inr dec) \<Rightarrow> Some (access_tail t tail_pos (rev dec))))"

section \<open>\<^verbatim>\<open>PrefixIterator\<close>\<close>

text \<open>
  The cursor of the common-prefix search. \<^verbatim>\<open>trie_\<close> is a pointer that is null in a
  default-constructed iterator.
\<close>

record PrefixIterator =
  pi_trie :: "Trie option"
  pi_key :: "byte list"
  pi_pos :: nat
  pi_node_id :: id_type
  pi_id :: id_type
  pi_begin_flag :: bool
  pi_end_flag :: bool

definition make_prefix_iterator :: "Trie \<Rightarrow> byte list \<Rightarrow> PrefixIterator" where
  "make_prefix_iterator t key =
     \<lparr>pi_trie = Some t, pi_key = key, pi_pos = 0, pi_node_id = 0, pi_id = 0,
      pi_begin_flag = True, pi_end_flag = False\<rparr>"

text \<open>
  The \<^verbatim>\<open>while\<close> loop of \<^verbatim>\<open>next_prefix_\<close> and the code after it. The loop reads
  \<^verbatim>\<open>key_[pos_++]\<close> with no test of \<^verbatim>\<open>pos_\<close> against the length of the key.
\<close>

function prefix_walk :: "Trie \<Rightarrow> PrefixIterator \<Rightarrow> error + bool \<times> PrefixIterator" where
  "prefix_walk t it =
     (if \<not> is_leaf (bc t) (pi_node_id it) then
        if length (pi_key it) \<le> pi_pos it then Inl KeyOutOfRange
        else
          (let child_id = base (bc t) (pi_node_id it) XOR code t (pi_key it ! pi_pos it);
               it1 = it\<lparr>pi_pos := pi_pos it + 1\<rparr>
           in if check (bc t) child_id \<noteq> pi_node_id it1
              then Inr (False, it1\<lparr>pi_end_flag := True, pi_id := NOT_FOUND\<rparr>)
              else
                (let it2 = it1\<lparr>pi_node_id := child_id\<rparr>
                 in if is_leaf (bc t) child_id then prefix_walk t it2
                    else if length (terminal_flags t) \<le> unat child_id then Inl FlagOutOfRange
                    else if terminal_flags t ! unat child_id
                      then Inr (True, it2\<lparr>pi_id := to_key_id t child_id\<rparr>)
                    else prefix_walk t it2))
      else
        (let it1 = it\<lparr>pi_end_flag := True\<rparr>;
             tail_pos = unat (link (bc t) (pi_node_id it1))
         in case match_suffix t (pi_key it1) (pi_pos it1) tail_pos of
              Inl e \<Rightarrow> Inl e
            | Inr ok \<Rightarrow>
                if \<not> ok then Inr (False, it1\<lparr>pi_id := NOT_FOUND\<rparr>)
                else Inr (True, it1\<lparr>pi_pos := length (pi_key it1),
                                    pi_id := to_key_id t (pi_node_id it1)\<rparr>)))"
  by pat_completeness auto
termination
  by (relation "measure (\<lambda>(t, it). length (pi_key it) - pi_pos it)") auto

declare prefix_walk.simps [simp del]

definition next_prefix :: "Trie \<Rightarrow> PrefixIterator \<Rightarrow> error + bool \<times> PrefixIterator" where
  "next_prefix t it =
     (if pi_end_flag it then Inr (False, it)
      else if pi_begin_flag it then
        (let it1 = it\<lparr>pi_begin_flag := False\<rparr>
         in if length (terminal_flags t) \<le> unat (pi_node_id it1) then Inl FlagOutOfRange
            else if terminal_flags t ! unat (pi_node_id it1)
              then Inr (True, it1\<lparr>pi_id := to_key_id t (pi_node_id it1)\<rparr>)
            else prefix_walk t it1)
      else prefix_walk t it)"

text \<open>\<^verbatim>\<open>PrefixIterator::next\<close>, and what \<^verbatim>\<open>key()\<close> and \<^verbatim>\<open>id()\<close> show after a hit.\<close>

definition PrefixIterator_next :: "PrefixIterator \<Rightarrow> error + bool \<times> PrefixIterator" where
  "PrefixIterator_next it =
     (case pi_trie it of None \<Rightarrow> Inr (False, it) | Some t \<Rightarrow> next_prefix t it)"

definition PrefixIterator_key :: "PrefixIterator \<Rightarrow> byte list" where
  "PrefixIterator_key it = take (pi_pos it) (pi_key it)"

text \<open>The result of the call number \<open>n + 1\<close> of \<^verbatim>\<open>next()\<close> on a cursor.\<close>

fun PrefixIterator_nexts :: "PrefixIterator \<Rightarrow> nat \<Rightarrow> error + bool \<times> PrefixIterator" where
  "PrefixIterator_nexts it 0 = PrefixIterator_next it"
| "PrefixIterator_nexts it (Suc n) =
     (case PrefixIterator_next it of
        Inl e \<Rightarrow> Inl e
      | Inr (b, it') \<Rightarrow> PrefixIterator_nexts it' n)"

section \<open>\<^verbatim>\<open>PredictiveIterator\<close>\<close>

record stack_t =
  st_depth :: nat
  st_c :: byte
  st_node_id :: id_type

text \<open>The traversal stack \<^verbatim>\<open>stack_\<close> is a list with its top (\<^verbatim>\<open>back()\<close>) at the head.\<close>

record PredictiveIterator =
  pd_trie :: "Trie option"
  pd_key :: "byte list"
  pd_begin_flag :: bool
  pd_end_flag :: bool
  pd_stack :: "stack_t list"
  pd_buf :: "byte list"
  pd_id :: id_type

definition make_predictive_iterator :: "Trie \<Rightarrow> byte list \<Rightarrow> PredictiveIterator" where
  "make_predictive_iterator t key =
     \<lparr>pd_trie = Some t, pd_key = key, pd_begin_flag = True, pd_end_flag = False,
      pd_stack = [], pd_buf = [], pd_id = 0\<rparr>"

text \<open>
  The end of the leaf branch of the descent: the id is set and the rest of the suffix is
  appended to the buffer.
\<close>

definition predictive_finish ::
  "Trie \<Rightarrow> PredictiveIterator \<Rightarrow> id_type \<Rightarrow> nat \<Rightarrow> error + bool option \<times> PredictiveIterator" where
  "predictive_finish t it node_id tail_pos =
     (case extract_suffix t tail_pos (pd_buf it) of
        Inl e \<Rightarrow> Inl e
      | Inr b \<Rightarrow> Inr (Some True, it\<lparr>pd_id := to_key_id t node_id, pd_buf := b\<rparr>))"

text \<open>
  The two do-while loops that match the rest of the input against the tail of a leaf met
  during the descent. The result \<open>Some b\<close> is \<^verbatim>\<open>return b\<close>.
\<close>

function predictive_match_bin ::
  "Trie \<Rightarrow> PredictiveIterator \<Rightarrow> id_type \<Rightarrow> nat \<Rightarrow> nat
    \<Rightarrow> error + bool option \<times> PredictiveIterator" where
  "predictive_match_bin t it node_id pos tail_pos =
     (if length (pd_key it) \<le> pos then Inl KeyOutOfRange
      else if length (tail t) \<le> tail_pos then Inl TailOutOfRange
      else if pd_key it ! pos \<noteq> tail t ! tail_pos then Inr (Some False, it)
      else
        (let it1 = it\<lparr>pd_buf := pd_buf it @ [pd_key it ! pos]\<rparr>
         in if length (boundary_flags t) \<le> tail_pos then Inl FlagOutOfRange
            else if boundary_flags t ! tail_pos then
              (if pos + 1 = length (pd_key it)
               then Inr (Some True, it1\<lparr>pd_id := to_key_id t node_id\<rparr>)
               else Inr (Some False, it1))
            else if pos + 1 < length (pd_key it)
              then predictive_match_bin t it1 node_id (pos + 1) (tail_pos + 1)
            else predictive_finish t it1 node_id (tail_pos + 1)))"
  by pat_completeness auto
termination
  by (relation "measure (\<lambda>(t, it, node_id, pos, tail_pos). length (pd_key it) - pos)") auto

declare predictive_match_bin.simps [simp del]

function predictive_match_text ::
  "Trie \<Rightarrow> PredictiveIterator \<Rightarrow> id_type \<Rightarrow> nat \<Rightarrow> nat
    \<Rightarrow> error + bool option \<times> PredictiveIterator" where
  "predictive_match_text t it node_id pos tail_pos =
     (if length (pd_key it) \<le> pos then Inl KeyOutOfRange
      else if length (tail t) \<le> tail_pos then Inl TailOutOfRange
      else if pd_key it ! pos \<noteq> tail t ! tail_pos \<or> tail t ! tail_pos = 0
        then Inr (Some False, it)
      else
        (let it1 = it\<lparr>pd_buf := pd_buf it @ [pd_key it ! pos]\<rparr>
         in if pos + 1 < length (pd_key it)
              then predictive_match_text t it1 node_id (pos + 1) (tail_pos + 1)
            else predictive_finish t it1 node_id (tail_pos + 1)))"
  by pat_completeness auto
termination
  by (relation "measure (\<lambda>(t, it, node_id, pos, tail_pos). length (pd_key it) - pos)") auto

declare predictive_match_text.simps [simp del]

text \<open>
  The \<^verbatim>\<open>for\<close> loop of the first call (the descent along the input). The result \<open>None\<close>
  means that the loop ended, the start frame was pushed and control goes on to the
  traversal loop.
\<close>

function predictive_descend ::
  "Trie \<Rightarrow> PredictiveIterator \<Rightarrow> id_type \<Rightarrow> nat \<Rightarrow> error + bool option \<times> PredictiveIterator" where
  "predictive_descend t it node_id pos =
     (if pos < length (pd_key it) then
        if is_leaf (bc t) node_id then
          (let it1 = it\<lparr>pd_end_flag := True\<rparr>;
               tail_pos = unat (link (bc t) node_id)
           in if tail_pos = 0 then Inr (Some False, it1)
              else if bin_mode t then predictive_match_bin t it1 node_id pos tail_pos
              else predictive_match_text t it1 node_id pos tail_pos)
        else
          (let child_id = base (bc t) node_id XOR code t (pd_key it ! pos)
           in if check (bc t) child_id \<noteq> node_id
              then Inr (Some False, it\<lparr>pd_end_flag := True\<rparr>)
              else predictive_descend t (it\<lparr>pd_buf := pd_buf it @ [pd_key it ! pos]\<rparr>)
                     child_id (pos + 1))
      else
        Inr (None,
             it\<lparr>pd_stack :=
                  \<lparr>st_depth = pos,
                   st_c = (if pd_buf it \<noteq> [] then last (pd_buf it) else 0),
                   st_node_id = node_id\<rparr> # pd_stack it\<rparr>))"
  by pat_completeness auto
termination
  by (relation "measure (\<lambda>(t, it, node_id, pos). length (pd_key it) - pos)") auto

declare predictive_descend.simps [simp del]

text \<open>
  \<^verbatim>\<open>buf_.resize(depth); buf_.back() = c\<close>: \<^verbatim>\<open>resize\<close> cuts the buffer or pads it with zero
  bytes.
\<close>

definition resize_back :: "nat \<Rightarrow> byte \<Rightarrow> byte list \<Rightarrow> byte list" where
  "resize_back d ch buf = (take d buf @ replicate (d - length buf) 0)[d - 1 := ch]"

text \<open>
  The loop over the alphabet in reverse: one frame is pushed for every byte whose child
  passes the CHECK test. The argument \<open>cs\<close> is the part of the reversed alphabet still to
  visit.
\<close>

fun push_children :: "Trie \<Rightarrow> id_type \<Rightarrow> nat \<Rightarrow> byte list \<Rightarrow> stack_t list \<Rightarrow> stack_t list" where
  "push_children t node_id d [] stk = stk"
| "push_children t node_id d (ch # cs) stk =
     (let child_id = base (bc t) node_id XOR code t ch
      in if check (bc t) child_id = node_id
         then push_children t node_id d cs
                (\<lparr>st_depth = d + 1, st_c = ch, st_node_id = child_id\<rparr> # stk)
         else push_children t node_id d cs stk)"

text \<open>
  The traversal loop. Nothing in the code bounds it: on a BASE/CHECK array with a cycle it
  does not return, which is the value \<open>None\<close>.
\<close>

partial_function (option) predictive_loop ::
  "Trie \<Rightarrow> PredictiveIterator \<Rightarrow> (error + bool \<times> PredictiveIterator) option" where
  "predictive_loop t it =
     (case pd_stack it of
        [] \<Rightarrow> Some (Inr (False, it\<lparr>pd_end_flag := True\<rparr>))
      | fr # rest \<Rightarrow>
          (let node_id = st_node_id fr;
               d = st_depth fr;
               it1 = it\<lparr>pd_stack := rest\<rparr>;
               it2 = (if 0 < d then it1\<lparr>pd_buf := resize_back d (st_c fr) (pd_buf it1)\<rparr>
                      else it1)
           in if is_leaf (bc t) node_id then
                Some (case extract_suffix t (unat (link (bc t) node_id)) (pd_buf it2) of
                        Inl e \<Rightarrow> Inl e
                      | Inr b \<Rightarrow> Inr (True, it2\<lparr>pd_id := to_key_id t node_id, pd_buf := b\<rparr>))
              else
                (let it3 = it2\<lparr>pd_stack :=
                             push_children t node_id d (rev (alphabet t)) (pd_stack it2)\<rparr>
                 in if length (terminal_flags t) \<le> unat node_id then Some (Inl FlagOutOfRange)
                    else if terminal_flags t ! unat node_id
                      then Some (Inr (True, it3\<lparr>pd_id := to_key_id t node_id\<rparr>))
                    else predictive_loop t it3)))"

declare predictive_loop.simps [code]

definition next_predictive ::
  "Trie \<Rightarrow> PredictiveIterator \<Rightarrow> (error + bool \<times> PredictiveIterator) option" where
  "next_predictive t it =
     (if pd_end_flag it then Some (Inr (False, it))
      else if pd_begin_flag it then
        (case predictive_descend t (it\<lparr>pd_begin_flag := False\<rparr>) 0 0 of
           Inl e \<Rightarrow> Some (Inl e)
         | Inr (Some b, it1) \<Rightarrow> Some (Inr (b, it1))
         | Inr (None, it1) \<Rightarrow> predictive_loop t it1)
      else predictive_loop t it)"

definition PredictiveIterator_next ::
  "PredictiveIterator \<Rightarrow> (error + bool \<times> PredictiveIterator) option" where
  "PredictiveIterator_next it =
     (case pd_trie it of None \<Rightarrow> Some (Inr (False, it)) | Some t \<Rightarrow> next_predictive t it)"

definition PredictiveIterator_key :: "PredictiveIterator \<Rightarrow> byte list" where
  "PredictiveIterator_key it = pd_buf it"

fun PredictiveIterator_nexts ::
  "PredictiveIterator \<Rightarrow> nat \<Rightarrow> (error + bool \<times> PredictiveIterator) option" where
  "PredictiveIterator_nexts it 0 = PredictiveIterator_next it"
| "PredictiveIterator_nexts it (Suc n) =
     (case PredictiveIterator_next it of
        None \<Rightarrow> None
      | Some (Inl e) \<Rightarrow> Some (Inl e)
      | Some (Inr (b, it')) \<Rightarrow> PredictiveIterator_nexts it' n)"

section \<open>Two small dictionaries\<close>

text \<open>
  The accessors of a BASE/CHECK backend with the given rows; outside the rows a node is a
  free slot (its CHECK value names no node of the rows).
\<close>

definition bc_of_rows :: "(id_type \<times> id_type \<times> bool \<times> id_type) list \<Rightarrow> bc_type" where
  "bc_of_rows rows =
     \<lparr>base = (\<lambda>i. if unat i < length rows then fst (rows ! unat i) else 0),
      check = (\<lambda>i. if unat i < length rows then fst (snd (rows ! unat i)) else ID_MAX),
      is_leaf = (\<lambda>i. unat i < length rows \<and> fst (snd (snd (rows ! unat i)))),
      link = (\<lambda>i. if unat i < length rows then snd (snd (snd (rows ! unat i))) else 0)\<rparr>"

text \<open>
  A code table that exchanges each byte of the alphabet with its code and leaves the other
  bytes alone; the second half of the table is the inverse of the first.
\<close>

fun swap_code :: "(byte \<times> byte) list \<Rightarrow> byte \<Rightarrow> byte" where
  "swap_code [] x = x"
| "swap_code ((a, k) # ps) x = (if x = a then k else if x = k then a else swap_code ps x)"

definition table_of :: "(byte \<times> byte) list \<Rightarrow> 9 word \<Rightarrow> byte" where
  "table_of ps i = swap_code ps (ucast i)"

text \<open>
  The keys "a", "an", "and", "ant" (the example of the specification) in text mode, with
  the codes a = 0, n = 1, d = 2, t = 3. Node 1 is "a", node 2 is "an", nodes 4 and 5 are
  the leaves "and" and "ant" with the empty suffix; node 3 is free.
\<close>

definition trie_ant :: Trie where
  "trie_ant =
     \<lparr>bc = bc_of_rows
        [(1, ID_MAX, False, 0), (3, 0, False, 0), (6, 1, False, 0),
         (0, ID_MAX, False, 0), (0, 2, True, 0), (0, 2, True, 0)],
      terminal_flags = [False, True, True, False, True, True],
      tail = [0],
      boundary_flags = [],
      alphabet = [97, 100, 110, 116],
      table = table_of [(97, 0), (110, 1), (100, 2), (116, 3)],
      num_keys = 4,
      max_length = 3,
      bin_mode = False\<rparr>"

text \<open>
  The keys "a" and "bcd" in binary mode, with the codes a = 0, b = 1, c = 2, d = 3. Node 2
  is the leaf "a" with the empty suffix (link 0), node 3 is the leaf "b" whose suffix "cd"
  is stored at the tail positions 1 and 2; node 1 is free.
\<close>

definition trie_bcd :: Trie where
  "trie_bcd =
     \<lparr>bc = bc_of_rows
        [(2, ID_MAX, False, 0), (0, ID_MAX, False, 0), (0, 0, True, 0), (0, 0, True, 1)],
      terminal_flags = [False, False, True, True],
      tail = [0, 99, 100],
      boundary_flags = [False, False, True],
      alphabet = [97, 98, 99, 100],
      table = table_of [(97, 0), (98, 1), (99, 2), (100, 3)],
      num_keys = 2,
      max_length = 3,
      bin_mode = True\<rparr>"

text \<open>
  The keys "ab" and "cd" in text mode, with the codes a = 0, b = 1, c = 2, d = 3. Node 4 is
  the leaf "a" with the suffix "b" at the tail position 1, node 6 is the leaf "c" with the
  suffix "d" at the tail position 3; the nodes 1, 2, 3 and 5 are free.
\<close>

definition trie_abcd :: Trie where
  "trie_abcd =
     \<lparr>bc = bc_of_rows
        [(4, ID_MAX, False, 0), (0, ID_MAX, False, 0), (0, ID_MAX, False, 0),
         (0, ID_MAX, False, 0), (0, 0, True, 1), (0, ID_MAX, False, 0), (0, 0, True, 3)],
      terminal_flags = [False, False, False, False, True, False, True],
      tail = [0, 98, 0, 100, 0],
      boundary_flags = [],
      alphabet = [97, 98, 99, 100],
      table = table_of [(97, 0), (98, 1), (99, 2), (100, 3)],
      num_keys = 2,
      max_length = 2,
      bin_mode = False\<rparr>"

section \<open>Serialization\<close>

text \<open>
  \<^verbatim>\<open>write\<close> and the constructor from a stream call the serializers of the components
  (\<^verbatim>\<open>bc_type\<close>, \<^verbatim>\<open>BitVector\<close>, \<^verbatim>\<open>Vector\<close>, \<^verbatim>\<open>write_value\<close> and \<^verbatim>\<open>read_value\<close>), which are not
  part of the sources at hand: they are parameters of the model, a writer and a reader for
  each kind of component. A stream is the list of its bytes; a reader returns the value
  and the rest of the stream, or \<open>None\<close> when the stream fails.
\<close>

record codec =
  write_bc :: "bc_type \<Rightarrow> byte list"
  read_bc :: "byte list \<Rightarrow> (bc_type \<times> byte list) option"
  write_BitVector :: "BitVector \<Rightarrow> byte list"
  read_BitVector :: "byte list \<Rightarrow> (BitVector \<times> byte list) option"
  write_Vector :: "byte list \<Rightarrow> byte list"
  read_Vector :: "byte list \<Rightarrow> (byte list \<times> byte list) option"
  write_size :: "nat \<Rightarrow> byte list"
  read_size :: "byte list \<Rightarrow> (nat \<times> byte list) option"
  write_bool :: "bool \<Rightarrow> byte list"
  read_bool :: "byte list \<Rightarrow> (bool \<times> byte list) option"

text \<open>The code table is written and read as 512 raw bytes.\<close>

definition table_bytes :: "(9 word \<Rightarrow> byte) \<Rightarrow> byte list" where
  "table_bytes tb = map (\<lambda>i. tb (word_of_nat i)) [0..<512]"

definition read_table :: "byte list \<Rightarrow> ((9 word \<Rightarrow> byte) \<times> byte list) option" where
  "read_table s = (if length s < 512 then None else Some (\<lambda>i. s ! unat i, drop 512 s))"

text \<open>
  \<^verbatim>\<open>Trie::write\<close> appends to the stream \<open>os\<close>; \<^verbatim>\<open>Trie::Trie(std::istream&)\<close> reads the members
  one after the other.
\<close>

definition Trie_write :: "codec \<Rightarrow> Trie \<Rightarrow> byte list \<Rightarrow> byte list" where
  "Trie_write cd t os =
     os @ write_bc cd (bc t) @ write_BitVector cd (terminal_flags t) @ write_Vector cd (tail t)
       @ write_BitVector cd (boundary_flags t) @ write_Vector cd (alphabet t)
       @ table_bytes (table t) @ write_size cd (num_keys t) @ write_size cd (max_length t)
       @ write_bool cd (bin_mode t)"

definition Trie_read :: "codec \<Rightarrow> byte list \<Rightarrow> (Trie \<times> byte list) option" where
  "Trie_read cd s0 =
     (case read_bc cd s0 of None \<Rightarrow> None | Some (b, s1) \<Rightarrow>
      case read_BitVector cd s1 of None \<Rightarrow> None | Some (tf, s2) \<Rightarrow>
      case read_Vector cd s2 of None \<Rightarrow> None | Some (ta, s3) \<Rightarrow>
      case read_BitVector cd s3 of None \<Rightarrow> None | Some (bf, s4) \<Rightarrow>
      case read_Vector cd s4 of None \<Rightarrow> None | Some (al, s5) \<Rightarrow>
      case read_table s5 of None \<Rightarrow> None | Some (tb, s6) \<Rightarrow>
      case read_size cd s6 of None \<Rightarrow> None | Some (nk, s7) \<Rightarrow>
      case read_size cd s7 of None \<Rightarrow> None | Some (ml, s8) \<Rightarrow>
      case read_bool cd s8 of None \<Rightarrow> None | Some (bm, s9) \<Rightarrow>
        Some (\<lparr>bc = b, terminal_flags = tf, tail = ta, boundary_flags = bf, alphabet = al,
               table = tb, num_keys = nk, max_length = ml, bin_mode = bm\<rparr>, s9))"

text \<open>
  The contract of a serializer at a value: what was written is read back, and the reader
  stops where the writer stopped.
\<close>

definition round_trips :: "('a \<Rightarrow> byte list) \<Rightarrow> (byte list \<Rightarrow> ('a \<times> byte list) option) \<Rightarrow> 'a \<Rightarrow> bool" where
  "round_trips wr rd x = (\<forall>rest. rd (wr x @ rest) = Some (x, rest))"

definition codec_ok :: "codec \<Rightarrow> Trie \<Rightarrow> bool" where
  "codec_ok cd t =
    (round_trips (write_bc cd) (read_bc cd) (bc t) \<and>
     round_trips (write_BitVector cd) (read_BitVector cd) (terminal_flags t) \<and>
     round_trips (write_Vector cd) (read_Vector cd) (tail t) \<and>
     round_trips (write_BitVector cd) (read_BitVector cd) (boundary_flags t) \<and>
     round_trips (write_Vector cd) (read_Vector cd) (alphabet t) \<and>
     round_trips (write_size cd) (read_size cd) (num_keys t) \<and>
     round_trips (write_size cd) (read_size cd) (max_length t) \<and>
     round_trips (write_bool cd) (read_bool cd) (bin_mode t))"

text \<open>
  A codec for a backend with \<open>n\<close> rows: numbers in little-endian bytes, lists as tagged
  items with an end mark.
\<close>

fun le_bytes :: "nat \<Rightarrow> nat \<Rightarrow> byte list" where
  "le_bytes 0 n = []"
| "le_bytes (Suc k) n = word_of_nat (n mod 256) # le_bytes k (n div 256)"

fun le_value :: "byte list \<Rightarrow> nat" where
  "le_value [] = 0"
| "le_value (x # xs) = unat x + 256 * le_value xs"

definition read_le :: "nat \<Rightarrow> byte list \<Rightarrow> (nat \<times> byte list) option" where
  "read_le k s = (if length s < k then None else Some (le_value (take k s), drop k s))"

fun write_items :: "byte list \<Rightarrow> byte list" where
  "write_items [] = [0]"
| "write_items (x # xs) = 1 # x # write_items xs"

fun read_items :: "byte list \<Rightarrow> (byte list \<times> byte list) option" where
  "read_items (a # x # s) =
     (if a = 0 then Some ([], x # s)
      else (case read_items s of None \<Rightarrow> None | Some (xs, r) \<Rightarrow> Some (x # xs, r)))"
| "read_items [a] = (if a = 0 then Some ([], []) else None)"
| "read_items [] = None"

definition write_row :: "bc_type \<Rightarrow> nat \<Rightarrow> byte list" where
  "write_row b i =
     le_bytes 4 (unat (base b (word_of_nat i))) @ le_bytes 4 (unat (check b (word_of_nat i)))
     @ [if is_leaf b (word_of_nat i) then 1 else 0] @ le_bytes 4 (unat (link b (word_of_nat i)))"

definition read_row :: "byte list \<Rightarrow> id_type \<times> id_type \<times> bool \<times> id_type" where
  "read_row s =
     (word_of_nat (le_value (take 4 s)), word_of_nat (le_value (take 4 (drop 4 s))),
      s ! 8 \<noteq> 0, word_of_nat (le_value (take 4 (drop 9 s))))"

fun read_rows :: "nat \<Rightarrow> byte list \<Rightarrow> ((id_type \<times> id_type \<times> bool \<times> id_type) list \<times> byte list) option" where
  "read_rows 0 s = Some ([], s)"
| "read_rows (Suc n) s =
     (if length s < 13 then None
      else (case read_rows n (drop 13 s) of None \<Rightarrow> None
            | Some (rows, r) \<Rightarrow> Some (read_row (take 13 s) # rows, r)))"

definition codec_rows :: "nat \<Rightarrow> codec" where
  "codec_rows n =
     \<lparr>write_bc = (\<lambda>b. concat (map (write_row b) [0..<n])),
      read_bc = (\<lambda>s. case read_rows n s of None \<Rightarrow> None
                      | Some (rows, r) \<Rightarrow> Some (bc_of_rows rows, r)),
      write_BitVector = (\<lambda>bs. write_items (map (\<lambda>b. if b then 1 else 0) bs)),
      read_BitVector = (\<lambda>s. case read_items s of None \<Rightarrow> None
                      | Some (xs, r) \<Rightarrow> Some (map (\<lambda>x. x \<noteq> 0) xs, r)),
      write_Vector = write_items,
      read_Vector = read_items,
      write_size = le_bytes 8,
      read_size = read_le 8,
      write_bool = (\<lambda>b. [if b then 1 else 0]),
      read_bool = (\<lambda>s. case s of [] \<Rightarrow> None | x # r \<Rightarrow> Some (x \<noteq> 0, r))\<rparr>"

definition row_of :: "bc_type \<Rightarrow> nat \<Rightarrow> id_type \<times> id_type \<times> bool \<times> id_type" where
  "row_of b i = (base b (word_of_nat i), check b (word_of_nat i), is_leaf b (word_of_nat i),
                 link b (word_of_nat i))"

section \<open>Well-formed dictionaries\<close>

text \<open>
  Modelled from the spec: the builder that makes a Trie from a key set is not part of the
  sources at hand, so what a well-formed Trie is comes from the data model of the
  specification. The key set is a trie whose inner nodes carry a terminal flag and their
  children by ascending edge byte, and whose leaves carry the rest of their key (the
  suffix that the tail stores).
\<close>

datatype atrie = ALeaf "byte list" | ANode bool "(byte \<times> atrie) list"

text \<open>The transition of the double array: \<^verbatim>\<open>base(node) ^ code_(c)\<close>.\<close>

definition child :: "Trie \<Rightarrow> id_type \<Rightarrow> byte \<Rightarrow> id_type" where
  "child t n c = base (bc t) n XOR code t c"

text \<open>
  The suffix \<open>s\<close> is stored at the tail position \<open>p\<close>: in text mode its bytes are not zero
  and a zero byte follows them, in binary mode the boundary flag is set at its last byte
  and at no byte before. The position 0 is reserved for the empty suffix, and no other
  position holds an empty suffix.
\<close>

fun stored_text :: "byte list \<Rightarrow> nat \<Rightarrow> byte list \<Rightarrow> bool" where
  "stored_text tb p [] = (p < length tb \<and> tb ! p = 0)"
| "stored_text tb p (x # xs) = (p < length tb \<and> tb ! p = x \<and> x \<noteq> 0 \<and> stored_text tb (p + 1) xs)"

fun stored_bin :: "byte list \<Rightarrow> bool list \<Rightarrow> nat \<Rightarrow> byte list \<Rightarrow> bool" where
  "stored_bin tb fl p [] = False"
| "stored_bin tb fl p [x] = (p < length tb \<and> p < length fl \<and> tb ! p = x \<and> fl ! p)"
| "stored_bin tb fl p (x # y # ys) =
     (p < length tb \<and> p < length fl \<and> tb ! p = x \<and> \<not> fl ! p \<and> stored_bin tb fl (p + 1) (y # ys))"

definition stored :: "Trie \<Rightarrow> nat \<Rightarrow> byte list \<Rightarrow> bool" where
  "stored t p s =
     (if p = 0 then s = [] \<and> (bin_mode t \<or> stored_text (tail t) 0 [])
      else s \<noteq> [] \<and>
        (if bin_mode t then stored_bin (tail t) (boundary_flags t) p s
         else stored_text (tail t) p s))"

text \<open>
  The node \<open>n\<close> of the double array represents the trie \<open>a\<close>: a leaf node is terminal and
  links to its suffix; at an inner node the bytes whose child passes the CHECK test are
  the bytes of the children of \<open>a\<close>, they belong to the alphabet, no child is the root,
  and every child represents its subtrie.
\<close>

fun repr :: "Trie \<Rightarrow> id_type \<Rightarrow> atrie \<Rightarrow> bool" where
  "repr t n (ALeaf s) =
     (is_leaf (bc t) n \<and> unat n < length (terminal_flags t) \<and> terminal_flags t ! unat n \<and>
      stored t (unat (link (bc t) n)) s)"
| "repr t n (ANode b kids) =
     (\<not> is_leaf (bc t) n \<and> unat n < length (terminal_flags t) \<and>
      terminal_flags t ! unat n = b \<and>
      sorted_wrt (<) (map fst kids) \<and>
      (\<forall>c. check (bc t) (child t n c) = n \<longrightarrow> c \<in> fst ` set kids) \<and>
      (\<forall>(c, a) \<in> set kids. c \<in> set (alphabet t) \<and> check (bc t) (child t n c) = n \<and>
          child t n c \<noteq> 0 \<and> repr t (child t n c) a))"

text \<open>
  The terminal nodes below \<open>n\<close> in the order of their keys, each with the bytes of its path
  from the root (\<open>pa\<close> is the path of \<open>n\<close>) and its suffix; and the keys of a trie.
\<close>

fun entries :: "Trie \<Rightarrow> id_type \<Rightarrow> byte list \<Rightarrow> atrie \<Rightarrow> (id_type \<times> byte list \<times> byte list) list" where
  "entries t n pa (ALeaf s) = [(n, pa, s)]"
| "entries t n pa (ANode b kids) =
     (if b then [(n, pa, [])] else []) @
     concat (map (\<lambda>(c, a). entries t (child t n c) (pa @ [c]) a) kids)"

fun akeys :: "atrie \<Rightarrow> byte list list" where
  "akeys (ALeaf s) = [s]"
| "akeys (ANode b kids) =
     (if b then [[]] else []) @ concat (map (\<lambda>(c, a). map ((#) c) (akeys a)) kids)"

text \<open>The comment of the source on the code table: \<^verbatim>\<open>table[table[c] + 256] = c\<close>.\<close>

definition table_inverse :: "Trie \<Rightarrow> bool" where
  "table_inverse t = (\<forall>c :: byte. table t (ucast (table t (ucast c)) + 256) = c)"

text \<open>
  A Trie is well formed for the key set \<open>a\<close>: the root represents \<open>a\<close>, the alphabet is in
  ascending order, the second half of the code table inverts the first, node ids and tail
  positions fit \<^verbatim>\<open>id_type\<close> (a tail position is never \<^verbatim>\<open>ID_MAX\<close>), \<^verbatim>\<open>num_keys_\<close> counts the
  terminal flags, and every terminal flag belongs to a node of the trie.
\<close>

definition well_formed :: "Trie \<Rightarrow> atrie \<Rightarrow> bool" where
  "well_formed t a =
     (repr t 0 a \<and>
      sorted_wrt (<) (alphabet t) \<and>
      table_inverse t \<and>
      length (terminal_flags t) \<le> 2 ^ 32 \<and>
      length (tail t) \<le> unat ID_MAX \<and>
      num_keys t = length (filter (\<lambda>b. b) (terminal_flags t)) \<and>
      (\<forall>i \<in> {..<length (terminal_flags t)}.
          terminal_flags t ! i \<longrightarrow> word_of_nat i \<in> fst ` set (entries t 0 [] a)))"

text \<open>
  A check of \<open>repr\<close> for a backend given by its rows: the CHECK test at an inner node can
  only pass inside the rows, so the condition on every byte becomes a condition on every
  row.
\<close>

fun repr_rows ::
  "Trie \<Rightarrow> (id_type \<times> id_type \<times> bool \<times> id_type) list \<Rightarrow> id_type \<Rightarrow> atrie \<Rightarrow> bool" where
  "repr_rows t rows n (ALeaf s) = repr t n (ALeaf s)"
| "repr_rows t rows n (ANode b kids) =
     (\<not> is_leaf (bc t) n \<and> unat n < length (terminal_flags t) \<and>
      terminal_flags t ! unat n = b \<and>
      sorted_wrt (<) (map fst kids) \<and>
      n \<noteq> ID_MAX \<and>
      (\<forall>m \<in> {..<length rows}. fst (snd (rows ! m)) = n \<longrightarrow>
          table t (ucast (base (bc t) n XOR word_of_nat m) + 256) \<in> fst ` set kids) \<and>
      (\<forall>(c, a) \<in> set kids. c \<in> set (alphabet t) \<and> check (bc t) (child t n c) = n \<and>
          child t n c \<noteq> 0 \<and> repr_rows t rows (child t n c) a))"

definition well_formed_rows ::
  "Trie \<Rightarrow> (id_type \<times> id_type \<times> bool \<times> id_type) list \<Rightarrow> (byte \<times> byte) list \<Rightarrow> atrie \<Rightarrow> bool" where
  "well_formed_rows t rows ps a =
     (repr_rows t rows 0 a \<and>
      sorted_wrt (<) (alphabet t) \<and>
      distinct (map fst ps @ map snd ps) \<and>
      num_keys t = length (filter (\<lambda>b. b) (terminal_flags t)) \<and>
      (\<forall>i \<in> {..<length (terminal_flags t)}.
          terminal_flags t ! i \<longrightarrow> word_of_nat i \<in> fst ` set (entries t 0 [] a)))"

text \<open>The key sets of the three small dictionaries.\<close>

definition atrie_ant :: atrie where
  "atrie_ant = ANode False [(97, ANode True [(110, ANode True [(100, ALeaf []), (116, ALeaf [])])])]"

definition atrie_abcd :: atrie where
  "atrie_abcd = ANode False [(97, ALeaf [98]), (99, ALeaf [100])]"

definition atrie_bcd :: atrie where
  "atrie_bcd = ANode False [(97, ALeaf []), (98, ALeaf [99, 100])]"

section \<open>Enumerating a \<^verbatim>\<open>PredictiveIterator\<close>\<close>

text \<open>
  The loop of a caller, \<^verbatim>\<open>while (it.next()) { ... it.key() ... it.id() ... }\<close>: the pairs
  of key and id seen after every call of \<^verbatim>\<open>next\<close> that returned \<^verbatim>\<open>true\<close>, up to the
  first call that returns \<^verbatim>\<open>false\<close>. The value \<open>None\<close> stands for a loop that does not end.
\<close>

partial_function (option) predictive_collect ::
  "PredictiveIterator \<Rightarrow> (byte list \<times> id_type) list \<Rightarrow> (error + (byte list \<times> id_type) list) option" where
  "predictive_collect it acc =
     (case PredictiveIterator_next it of
        None \<Rightarrow> None
      | Some (Inl e) \<Rightarrow> Some (Inl e)
      | Some (Inr (b, it')) \<Rightarrow>
          if b then predictive_collect it' (acc @ [(PredictiveIterator_key it', pd_id it')])
          else Some (Inr acc))"

declare predictive_collect.simps [code]

text \<open>
  The keys a dictionary holds are the keys that \<^verbatim>\<open>access\<close> decodes for the ids below
  \<^verbatim>\<open>num_keys()\<close>.
\<close>

definition registered :: "Trie \<Rightarrow> byte list \<Rightarrow> bool" where
  "registered t key = (\<exists>key_id. unat key_id < num_keys t \<and> access t key_id = Some (Inr key))"

text \<open>The lexicographic order on byte strings; bytes compare as unsigned numbers.\<close>

definition lex_less :: "byte list \<Rightarrow> byte list \<Rightarrow> bool" where
  "lex_less x y = ((x, y) \<in> lexord {(u, v). u < v})"

subsection \<open>The stack of the traversal\<close>

text \<open>
  An entry \<open>(m, pm, sm)\<close> of a represented trie stands for the key \<open>pm @ sm\<close>; the traversal
  reports it with the key id of the node \<open>m\<close>. Of the entries, \<open>hits p\<close> keeps those whose key
  starts with \<open>p\<close>.
\<close>

definition entry_key :: "id_type \<times> byte list \<times> byte list \<Rightarrow> byte list" where
  "entry_key e = (case e of (m, pm, sm) \<Rightarrow> pm @ sm)"

definition entry_hit :: "Trie \<Rightarrow> id_type \<times> byte list \<times> byte list \<Rightarrow> byte list \<times> id_type" where
  "entry_hit t e = (entry_key e, to_key_id t (fst e))"

definition hits :: "byte list \<Rightarrow> (id_type \<times> byte list \<times> byte list) list
    \<Rightarrow> (id_type \<times> byte list \<times> byte list) list" where
  "hits p es = filter (\<lambda>e. prefix p (entry_key e)) es"

text \<open>
  A frame of the stack is described by the path that leads to its node, the node, and the
  subtrie the node represents: the depth of the frame is the length of the path and its byte
  is the last byte of the path.
\<close>

fun asize :: "atrie \<Rightarrow> nat" where
  "asize (ALeaf s) = 1"
| "asize (ANode b kids) = Suc (sum_list (map (\<lambda>(c, a). asize a) kids))"

type_synonym frame = "byte list \<times> id_type \<times> atrie"

definition frame_rel :: "Trie \<Rightarrow> stack_t \<Rightarrow> frame \<Rightarrow> bool" where
  "frame_rel t fr f =
     (case f of (pa, n, a) \<Rightarrow>
        st_node_id fr = n \<and> st_depth fr = length pa \<and> (pa \<noteq> [] \<longrightarrow> st_c fr = last pa) \<and>
        repr t n a)"

text \<open>
  Every frame on the stack is a child of a node on the path of the frame above it: the path
  of a frame without its last byte is a prefix of the buffer as it is when the frame is
  popped. The frame pushed by the descent for the empty input is the only one with an empty
  path.
\<close>

fun chain :: "byte list \<Rightarrow> frame list \<Rightarrow> bool" where
  "chain buf [] = True"
| "chain buf ((pa, n, a) # fs) = (pa \<noteq> [] \<and> prefix (butlast pa) buf \<and> chain (butlast pa) fs)"

definition frames_inv :: "byte list \<Rightarrow> frame list \<Rightarrow> bool" where
  "frames_inv buf fs = ((\<exists>n a. fs = [([], n, a)] \<and> buf = []) \<or> chain buf fs)"

text \<open>The entries still to be reported, and the measure that decreases with every round.\<close>

definition frames_out :: "Trie \<Rightarrow> frame list \<Rightarrow> (id_type \<times> byte list \<times> byte list) list" where
  "frames_out t fs = concat (map (\<lambda>(pa, n, a). entries t n pa a) fs)"

definition frames_size :: "frame list \<Rightarrow> nat" where
  "frames_size fs = sum_list (map (\<lambda>(pa, n, a). asize a) fs)"

text \<open>
  The iterator after a frame was popped and the buffer cut to its depth, and after the
  children of the popped node were pushed.
\<close>

definition popped :: "PredictiveIterator \<Rightarrow> PredictiveIterator" where
  "popped it =
     (let fr = hd (pd_stack it); it1 = it\<lparr>pd_stack := tl (pd_stack it)\<rparr>
      in if 0 < st_depth fr
         then it1\<lparr>pd_buf := resize_back (st_depth fr) (st_c fr) (pd_buf it1)\<rparr>
         else it1)"

definition pushed :: "Trie \<Rightarrow> PredictiveIterator \<Rightarrow> PredictiveIterator" where
  "pushed t it =
     (popped it)\<lparr>pd_stack :=
        push_children t (st_node_id (hd (pd_stack it))) (st_depth (hd (pd_stack it)))
          (rev (alphabet t)) (pd_stack (popped it))\<rparr>"

definition child_frame :: "Trie \<Rightarrow> id_type \<Rightarrow> nat \<Rightarrow> byte \<Rightarrow> stack_t" where
  "child_frame t n d c = \<lparr>st_depth = d + 1, st_c = c, st_node_id = child t n c\<rparr>"

text \<open>
  What a run of the traversal loop returns when the frames still hold the entries \<open>out\<close>:
  the first of them, with a stack that holds the rest; or \<^verbatim>\<open>false\<close> when there is none.
\<close>

definition step_result ::
  "Trie \<Rightarrow> PredictiveIterator \<Rightarrow> (id_type \<times> byte list \<times> byte list) list
    \<Rightarrow> (error + bool \<times> PredictiveIterator) option \<Rightarrow> bool" where
  "step_result t it out r =
     (case out of
        [] \<Rightarrow> \<exists>it'. r = Some (Inr (False, it'))
      | e # rest \<Rightarrow>
          \<exists>it' fs'. r = Some (Inr (True, it')) \<and> pd_buf it' = entry_key e \<and>
            pd_id it' = to_key_id t (fst e) \<and>
            list_all2 (frame_rel t) (pd_stack it') fs' \<and> frames_inv (pd_buf it') fs' \<and>
            frames_out t fs' = rest \<and> pd_trie it' = pd_trie it \<and>
            pd_end_flag it' = pd_end_flag it \<and> pd_begin_flag it' = pd_begin_flag it)"

text \<open>
  What the descent along the input returns when the entries below the start node whose keys
  start with the input are \<open>es\<close>: a stack that holds them, or a mismatch when there is none,
  or the single key found in the tail.
\<close>

definition descend_result ::
  "Trie \<Rightarrow> PredictiveIterator \<Rightarrow> (id_type \<times> byte list \<times> byte list) list
    \<Rightarrow> error + bool option \<times> PredictiveIterator \<Rightarrow> bool" where
  "descend_result t it es r =
     ((\<exists>it' fs. r = Inr (None, it') \<and> list_all2 (frame_rel t) (pd_stack it') fs \<and>
         frames_inv (pd_buf it') fs \<and> frames_out t fs = es \<and> pd_trie it' = pd_trie it \<and>
         pd_end_flag it' = pd_end_flag it \<and> pd_begin_flag it' = pd_begin_flag it) \<or>
      (\<exists>it'. r = Inr (Some False, it') \<and> es = []) \<or>
      (\<exists>it' e. r = Inr (Some True, it') \<and> es = [e] \<and> pd_buf it' = entry_key e \<and>
         pd_id it' = to_key_id t (fst e) \<and> pd_end_flag it' \<and> pd_trie it' = pd_trie it))"

section \<open>Out-of-range ids\<close>

text \<open>
  C6. For every id with \<^verbatim>\<open>num_keys <= id\<close>, \<^verbatim>\<open>access(id)\<close> returns the empty byte string: the
  call returns (the value is not \<open>None\<close>) and no error is raised (the value is \<open>Inr\<close>).
  \<^verbatim>\<open>access\<close> is a function of the Trie and the id alone, so the Trie is left as it was.
\<close>

theorem access_out_of_range:
  "num_keys t \<le> unat key_id \<Longrightarrow> access t key_id = Some (Inr [])"
  by (simp add: access_def)

theorem access_out_of_range_witness:
  "num_keys trie_ant \<le> unat (7 :: id_type) \<and> access trie_ant 7 = Some (Inr [])"
proof -
  have h: "num_keys trie_ant \<le> unat (7 :: id_type)" by code_simp
  from h access_out_of_range [OF h] show ?thesis by blast
qed

section \<open>The empty suffix at tail position 0\<close>

text \<open>
  C7. With \<^verbatim>\<open>tail_pos == 0\<close> the suffix is empty: \<^verbatim>\<open>match_suffix_\<close> should succeed only when
  the input is exhausted. In binary mode the code has no test of \<^verbatim>\<open>tail_pos\<close> once
  \<^verbatim>\<open>pos < key.length()\<close>: on the dictionary of "a" and "bcd", whose tail starts with the
  reserved byte 0 followed by the suffix "cd", the input bytes 0, "c", "d" are matched from
  the tail position 0 although none of them is consumed.
\<close>

theorem match_suffix_zero_bin:
  "match_suffix trie_bcd [0, 99, 100] 0 0 = Inr True"
  by code_simp

section \<open>Keys that are not registered\<close>

text \<open>
  C4. \<^verbatim>\<open>lookup\<close> should return \<^verbatim>\<open>NOT_FOUND\<close> for a byte string that is not a key. On the
  binary-mode dictionary of "a" and "bcd" (the ids 0 and 1 decode to these two keys), the
  lookup of the four bytes "a", 0, "c", "d" returns the id 0, which is not \<^verbatim>\<open>NOT_FOUND\<close>:
  the leaf "a" has the link 0 and \<^verbatim>\<open>match_suffix_\<close> runs on from the tail position 0.
\<close>

theorem lookup_unregistered_bin:
  "lookup trie_bcd [97, 0, 99, 100] = Inr 0 \<and> (0 :: id_type) \<noteq> NOT_FOUND \<and>
   num_keys trie_bcd = 2 \<and>
   access trie_bcd 0 = Some (Inr [97]) \<and> access trie_bcd 1 = Some (Inr [98, 99, 100])"
  by code_simp

section \<open>Common-prefix search\<close>

text \<open>
  C3. The prefix iterator should yield only registered keys. On the binary-mode
  dictionary of "a" and "bcd" and the input "a", 0, "c", "d", the first call of \<^verbatim>\<open>next()\<close>
  returns true with the whole input as the key and the id 0 of "a": the walk stops on the
  leaf "a" with the link 0 and \<^verbatim>\<open>match_suffix_\<close> accepts the rest of the input.
\<close>

theorem prefix_unregistered_bin:
  "map_sum (\<lambda>e. e) (\<lambda>(b, it). (b, PrefixIterator_key it, pi_id it))
     (PrefixIterator_next (make_prefix_iterator trie_bcd [97, 0, 99, 100]))
   = Inr (True, [97, 0, 99, 100], 0)"
  by code_simp

text \<open>
  C9. Every read of \<^verbatim>\<open>key_[pos_]\<close> in \<^verbatim>\<open>next_prefix_\<close> should be below the length of the
  input. On the dictionary of "a", "an", "and", "ant" and the input "an", the first two
  calls yield "a" and "an"; the third call finds the cursor on the inner node "an" with
  the input consumed, and the loop reads \<^verbatim>\<open>key_[2]\<close>, past the end of the input.
\<close>

theorem prefix_reads_past_end:
  "PrefixIterator_nexts (make_prefix_iterator trie_ant [97, 110]) 2 = Inl KeyOutOfRange"
  by code_simp

section \<open>The tail loops of \<^verbatim>\<open>access\<close> and \<^verbatim>\<open>extract_suffix_\<close>\<close>

lemma access_tail_bin_eq: "access_tail_bin t p dec = extract_suffix_bin t p dec"
proof (induction t p dec rule: access_tail_bin.induct)
  case (1 t p dec)
  then show ?case
    by (subst access_tail_bin.simps, subst extract_suffix_bin.simps) simp
qed

lemma access_tail_text_eq:
  "p < length (tail t) \<Longrightarrow> tail t ! p \<noteq> 0 \<Longrightarrow>
   access_tail_text t p dec = extract_suffix_text t p dec"
proof (induction t p dec rule: access_tail_text.induct)
  case (1 t p dec)
  show ?case
  proof (cases "Suc p < length (tail t)")
    case False
    with "1.prems" show ?thesis
      by (subst access_tail_text.simps, subst extract_suffix_text.simps,
          subst extract_suffix_text.simps) simp
  next
    case True
    show ?thesis
    proof (cases "tail t ! Suc p = 0")
      case z: True
      with True "1.prems" show ?thesis
        by (subst access_tail_text.simps, subst extract_suffix_text.simps,
          subst extract_suffix_text.simps) simp
    next
      case nz: False
      with True "1.prems" "1.IH" show ?thesis
        by (subst access_tail_text.simps, subst extract_suffix_text.simps) simp
    qed
  qed
qed

lemma stored_starts_suffix:
  assumes "stored t p s" and "p \<noteq> 0"
  shows "bin_mode t \<or> (p < length (tail t) \<and> tail t ! p \<noteq> 0)"
proof (cases "bin_mode t")
  case True
  then show ?thesis by simp
next
  case False
  with assms have "s \<noteq> []" "stored_text (tail t) p s" by (simp_all add: stored_def)
  then show ?thesis by (cases s) auto
qed

text \<open>
  C10. A tail position is valid when a suffix starts there: it is neither 0 nor
  \<^verbatim>\<open>NOT_FOUND\<close>, and in text mode the byte it holds is not the terminator of another suffix.
  Every position at which a suffix is stored is such a position (\<open>stored_starts_suffix\<close>),
  so every non-zero link of a leaf of a well-formed Trie is. At every valid position, in
  either storage mode, the inline loop of \<^verbatim>\<open>access\<close> and \<^verbatim>\<open>extract_suffix_\<close> give the same
  result: the same bytes appended to the same buffer (or, when the tail ends before the
  suffix does, the same read outside the tail).
\<close>

theorem access_tail_extract_suffix:
  "tail_pos \<noteq> 0 \<Longrightarrow> tail_pos \<noteq> NOT_FOUND \<Longrightarrow>
   bin_mode t \<or> (unat tail_pos < length (tail t) \<and> tail t ! unat tail_pos \<noteq> 0) \<Longrightarrow>
   access_tail t tail_pos dec = extract_suffix t (unat tail_pos) dec"
  by (auto simp: access_tail_def extract_suffix_def access_tail_bin_eq access_tail_text_eq unat_eq_0)

theorem access_tail_extract_suffix_witness:
  "(1 :: id_type) \<noteq> 0 \<and> (1 :: id_type) \<noteq> NOT_FOUND \<and>
   (bin_mode trie_abcd \<or> (unat (1 :: id_type) < length (tail trie_abcd) \<and> tail trie_abcd ! unat (1 :: id_type) \<noteq> 0)) \<and>
   access_tail trie_abcd 1 [97] = extract_suffix trie_abcd (unat (1 :: id_type)) [97] \<and>
   (bin_mode trie_bcd \<or> (unat (1 :: id_type) < length (tail trie_bcd) \<and> tail trie_bcd ! unat (1 :: id_type) \<noteq> 0)) \<and>
   access_tail trie_bcd 1 [98] = extract_suffix trie_bcd (unat (1 :: id_type)) [98]"
proof -
  have a: "(1 :: id_type) \<noteq> 0" and b: "(1 :: id_type) \<noteq> NOT_FOUND"
    and c: "bin_mode trie_abcd \<or> (unat (1 :: id_type) < length (tail trie_abcd) \<and> tail trie_abcd ! unat (1 :: id_type) \<noteq> 0)"
    and d: "bin_mode trie_bcd \<or> (unat (1 :: id_type) < length (tail trie_bcd) \<and> tail trie_bcd ! unat (1 :: id_type) \<noteq> 0)"
    by code_simp+
  from a b c d access_tail_extract_suffix [OF a b c, of "[97]"] access_tail_extract_suffix [OF a b d, of "[98]"]
  show ?thesis by blast
qed


section \<open>Exhaustion of the iterators\<close>

lemma prefix_walk_False:
  "prefix_walk t it = Inr (False, it') \<Longrightarrow> pi_end_flag it' \<and> pi_trie it' = pi_trie it"
proof (induction t it rule: prefix_walk.induct)
  case (1 t it)
  show ?case
  proof (cases "is_leaf (bc t) (pi_node_id it)")
    case True
    with "1.prems" show ?thesis
      by (subst (asm) prefix_walk.simps) (auto simp: Let_def split: sum.splits if_splits)
  next
    case False
    with "1.prems" "1.IH" show ?thesis
      apply (subst (asm) prefix_walk.simps)
      apply (simp add: Let_def split: if_splits)
      apply auto
      done
  qed
qed

lemma next_prefix_False:
  "next_prefix t it = Inr (False, it') \<Longrightarrow> pi_end_flag it' \<and> pi_trie it' = pi_trie it"
  by (auto simp: next_prefix_def Let_def split: if_splits dest: prefix_walk_False)

lemma PrefixIterator_next_False:
  assumes "PrefixIterator_next it = Inr (False, it')"
  shows "PrefixIterator_next it' = Inr (False, it')"
proof (cases "pi_trie it")
  case None
  with assms show ?thesis by (auto simp: PrefixIterator_next_def)
next
  case (Some t)
  with assms have "next_prefix t it = Inr (False, it')" by (simp add: PrefixIterator_next_def)
  from next_prefix_False [OF this] Some show ?thesis
    by (simp add: PrefixIterator_next_def next_prefix_def)
qed

lemma PrefixIterator_nexts_False:
  "PrefixIterator_next it = Inr (False, it) \<Longrightarrow> PrefixIterator_nexts it n = Inr (False, it)"
  by (induction n) auto

lemma predictive_finish_False:
  "predictive_finish t it node_id tail_pos \<noteq> Inr (Some False, it')"
  by (auto simp: predictive_finish_def split: sum.splits)

lemma predictive_match_bin_False:
  "predictive_match_bin t it node_id pos tail_pos = Inr (Some False, it') \<Longrightarrow>
     pd_end_flag it' = pd_end_flag it \<and> pd_trie it' = pd_trie it"
proof (induction t it node_id pos tail_pos rule: predictive_match_bin.induct)
  case (1 t it node_id pos tail_pos)
  from "1.prems" "1.IH" show ?case
    apply (subst (asm) predictive_match_bin.simps)
    apply (simp add: Let_def predictive_finish_False split: if_splits)
    apply auto
    done
qed

lemma predictive_match_text_False:
  "predictive_match_text t it node_id pos tail_pos = Inr (Some False, it') \<Longrightarrow>
     pd_end_flag it' = pd_end_flag it \<and> pd_trie it' = pd_trie it"
proof (induction t it node_id pos tail_pos rule: predictive_match_text.induct)
  case (1 t it node_id pos tail_pos)
  from "1.prems" "1.IH" show ?case
    apply (subst (asm) predictive_match_text.simps)
    apply (simp add: Let_def predictive_finish_False split: if_splits)
    done
qed

lemma predictive_descend_False:
  "predictive_descend t it node_id pos = Inr (Some False, it') \<Longrightarrow>
     pd_end_flag it' \<and> pd_trie it' = pd_trie it"
proof (induction t it node_id pos rule: predictive_descend.induct)
  case (1 t it node_id pos)
  show ?case
  proof (cases "pos < length (pd_key it)")
    case False
    with "1.prems" show ?thesis
      by (subst (asm) predictive_descend.simps) simp
  next
    case inr: True
    show ?thesis
    proof (cases "is_leaf (bc t) node_id")
      case True
      with inr "1.prems" show ?thesis
        apply (subst (asm) predictive_descend.simps)
        apply (simp add: Let_def split: if_splits)
          apply (auto dest: predictive_match_bin_False predictive_match_text_False)
        done
    next
      case False
      with inr "1.prems" "1.IH" [OF inr False refl] show ?thesis
        apply (subst (asm) predictive_descend.simps)
        apply (simp add: Let_def split: if_splits)
        apply auto
        done
    qed
  qed
qed

lemma predictive_finish_None:
  "predictive_finish t it node_id tail_pos \<noteq> Inr (None, it')"
  by (auto simp: predictive_finish_def split: sum.splits)

lemma predictive_match_bin_None:
  "predictive_match_bin t it node_id pos tail_pos \<noteq> Inr (None, it')"
proof (induction t it node_id pos tail_pos rule: predictive_match_bin.induct)
  case (1 t it node_id pos tail_pos)
  from "1.IH" show ?case
    apply (subst predictive_match_bin.simps)
    apply (simp add: Let_def predictive_finish_None)
    done
qed

lemma predictive_match_text_None:
  "predictive_match_text t it node_id pos tail_pos \<noteq> Inr (None, it')"
proof (induction t it node_id pos tail_pos rule: predictive_match_text.induct)
  case (1 t it node_id pos tail_pos)
  from "1.IH" show ?case
    apply (subst predictive_match_text.simps)
    apply (simp add: Let_def predictive_finish_None)
    done
qed

lemma predictive_descend_None:
  "predictive_descend t it node_id pos = Inr (None, it') \<Longrightarrow>
     pd_end_flag it' = pd_end_flag it \<and> pd_trie it' = pd_trie it"
proof (induction t it node_id pos rule: predictive_descend.induct)
  case (1 t it node_id pos)
  show ?case
  proof (cases "pos < length (pd_key it)")
    case False
    with "1.prems" show ?thesis
      by (subst (asm) predictive_descend.simps) auto
  next
    case inr: True
    show ?thesis
    proof (cases "is_leaf (bc t) node_id")
      case True
      with inr "1.prems" show ?thesis
        apply (subst (asm) predictive_descend.simps)
        apply (simp add: Let_def predictive_match_bin_None predictive_match_text_None
                 split: if_splits)
        done
    next
      case False
      with inr "1.prems" "1.IH" [OF inr False refl] show ?thesis
        apply (subst (asm) predictive_descend.simps)
        apply (simp add: Let_def split: if_splits)
        done
    qed
  qed
qed

lemma predictive_loop_False:
  assumes "predictive_loop t it = Some r"
  shows "\<forall>it'. r = Inr (False, it') \<longrightarrow> pd_end_flag it' \<and> pd_trie it' = pd_trie it"
proof (rule predictive_loop.raw_induct
    [where P = "\<lambda>t it r. \<forall>it'. r = Inr (False, it') \<longrightarrow> pd_end_flag it' \<and> pd_trie it' = pd_trie it",
     OF _ assms])
  fix loop :: "Trie \<Rightarrow> PredictiveIterator \<Rightarrow> (error + bool \<times> PredictiveIterator) option"
    and t it r
  assume IH: "\<And>t it r. loop t it = Some r \<Longrightarrow>
      \<forall>it'. r = Inr (False, it') \<longrightarrow> pd_end_flag it' \<and> pd_trie it' = pd_trie it"
  assume body: "(case pd_stack it of
        [] \<Rightarrow> Some (Inr (False, it\<lparr>pd_end_flag := True\<rparr>))
      | fr # rest \<Rightarrow>
          (let node_id = st_node_id fr;
               d = st_depth fr;
               it1 = it\<lparr>pd_stack := rest\<rparr>;
               it2 = (if 0 < d then it1\<lparr>pd_buf := resize_back d (st_c fr) (pd_buf it1)\<rparr>
                      else it1)
           in if is_leaf (bc t) node_id then
                Some (case extract_suffix t (unat (link (bc t) node_id)) (pd_buf it2) of
                        Inl e \<Rightarrow> Inl e
                      | Inr b \<Rightarrow> Inr (True, it2\<lparr>pd_id := to_key_id t node_id, pd_buf := b\<rparr>))
              else
                (let it3 = it2\<lparr>pd_stack :=
                             push_children t node_id d (rev (alphabet t)) (pd_stack it2)\<rparr>
                 in if length (terminal_flags t) \<le> unat node_id then Some (Inl FlagOutOfRange)
                    else if terminal_flags t ! unat node_id
                      then Some (Inr (True, it3\<lparr>pd_id := to_key_id t node_id\<rparr>))
                    else loop t it3))) = Some r"
  show "\<forall>it'. r = Inr (False, it') \<longrightarrow> pd_end_flag it' \<and> pd_trie it' = pd_trie it"
  proof (cases "pd_stack it")
    case Nil
    with body show ?thesis by auto
  next
    case (Cons fr rest)
    show ?thesis
    proof (cases "is_leaf (bc t) (st_node_id fr)")
      case True
      with Cons body show ?thesis by (auto simp: Let_def split: sum.splits)
    next
      case False
      with Cons body show ?thesis
        by (auto simp: Let_def split: if_splits dest!: IH)
    qed
  qed
qed

lemma predictive_loop_False':
  "predictive_loop t it = Some (Inr (False, it')) \<Longrightarrow> pd_end_flag it' \<and> pd_trie it' = pd_trie it"
  using predictive_loop_False [of t it "Inr (False, it')"] by simp

lemma next_predictive_False:
  assumes "next_predictive t it = Some (Inr (False, it'))"
  shows "pd_end_flag it' \<and> pd_trie it' = pd_trie it"
proof (cases "pd_end_flag it")
  case True
  with assms show ?thesis by (simp add: next_predictive_def)
next
  case nend: False
  show ?thesis
  proof (cases "pd_begin_flag it")
    case False
    with nend assms have "predictive_loop t it = Some (Inr (False, it'))"
      by (simp add: next_predictive_def)
    then show ?thesis by (rule predictive_loop_False')
  next
    case True
    show ?thesis
    proof (cases "predictive_descend t (it\<lparr>pd_begin_flag := False\<rparr>) 0 0")
      case (Inl e)
      with True nend assms show ?thesis by (simp add: next_predictive_def)
    next
      case (Inr r)
      obtain ob it1 where r: "r = (ob, it1)" by (cases r)
      show ?thesis
      proof (cases ob)
        case None
        with Inr r True nend assms have "predictive_loop t it1 = Some (Inr (False, it'))"
          by (simp add: next_predictive_def)
        then have "pd_end_flag it' \<and> pd_trie it' = pd_trie it1"
          by (rule predictive_loop_False')
        moreover from Inr r None
        have "predictive_descend t (it\<lparr>pd_begin_flag := False\<rparr>) 0 0 = Inr (None, it1)"
          by simp
        then have "pd_trie it1 = pd_trie (it\<lparr>pd_begin_flag := False\<rparr>)"
          by (rule predictive_descend_None [THEN conjunct2])
        ultimately show ?thesis by simp
      next
        case (Some b)
        with Inr r True nend assms have "b = False" "it1 = it'"
          by (simp_all add: next_predictive_def)
        with Inr r Some
        have "predictive_descend t (it\<lparr>pd_begin_flag := False\<rparr>) 0 0 = Inr (Some False, it')"
          by simp
        from predictive_descend_False [OF this] show ?thesis by simp
      qed
    qed
  qed
qed

lemma PredictiveIterator_next_False:
  assumes "PredictiveIterator_next it = Some (Inr (False, it'))"
  shows "PredictiveIterator_next it' = Some (Inr (False, it'))"
proof (cases "pd_trie it")
  case None
  with assms show ?thesis by (auto simp: PredictiveIterator_next_def)
next
  case (Some t)
  with assms have "next_predictive t it = Some (Inr (False, it'))"
    by (simp add: PredictiveIterator_next_def)
  from next_predictive_False [OF this] Some show ?thesis
    by (simp add: PredictiveIterator_next_def next_predictive_def)
qed

lemma PredictiveIterator_nexts_False:
  "PredictiveIterator_next it = Some (Inr (False, it)) \<Longrightarrow>
   PredictiveIterator_nexts it n = Some (Inr (False, it))"
  by (induction n) auto

text \<open>
  C8. Once \<^verbatim>\<open>next()\<close> of a prefix iterator or of a predictive iterator has returned false,
  every later call on the cursor it left returns false as well and leaves the cursor as
  it is, so that no further hit is shown.
\<close>

theorem exhaustion_is_permanent:
  "(PrefixIterator_next it = Inr (False, it') \<longrightarrow>
      PrefixIterator_nexts it' n = Inr (False, it')) \<and>
   (PredictiveIterator_next pit = Some (Inr (False, pit')) \<longrightarrow>
      PredictiveIterator_nexts pit' n = Some (Inr (False, pit')))"
  by (blast intro: PrefixIterator_nexts_False PrefixIterator_next_False
      PredictiveIterator_nexts_False PredictiveIterator_next_False)

theorem exhaustion_is_permanent_witness:
  "PrefixIterator_next (make_prefix_iterator trie_ant [98]) =
     Inr (False, (make_prefix_iterator trie_ant [98])
       \<lparr>pi_pos := 1, pi_id := NOT_FOUND, pi_begin_flag := False, pi_end_flag := True\<rparr>) \<and>
   PrefixIterator_nexts ((make_prefix_iterator trie_ant [98])
       \<lparr>pi_pos := 1, pi_id := NOT_FOUND, pi_begin_flag := False, pi_end_flag := True\<rparr>) 5 =
     Inr (False, (make_prefix_iterator trie_ant [98])
       \<lparr>pi_pos := 1, pi_id := NOT_FOUND, pi_begin_flag := False, pi_end_flag := True\<rparr>) \<and>
   PredictiveIterator_next (make_predictive_iterator trie_ant [98]) =
     Some (Inr (False, (make_predictive_iterator trie_ant [98])
       \<lparr>pd_begin_flag := False, pd_end_flag := True\<rparr>)) \<and>
   PredictiveIterator_nexts ((make_predictive_iterator trie_ant [98])
       \<lparr>pd_begin_flag := False, pd_end_flag := True\<rparr>) 5 =
     Some (Inr (False, (make_predictive_iterator trie_ant [98])
       \<lparr>pd_begin_flag := False, pd_end_flag := True\<rparr>))"
proof -
  have a: "PrefixIterator_next (make_prefix_iterator trie_ant [98]) =
     Inr (False, (make_prefix_iterator trie_ant [98])
       \<lparr>pi_pos := 1, pi_id := NOT_FOUND, pi_begin_flag := False, pi_end_flag := True\<rparr>)"
    by code_simp
  have b: "PredictiveIterator_next (make_predictive_iterator trie_ant [98]) =
     Some (Inr (False, (make_predictive_iterator trie_ant [98])
       \<lparr>pd_begin_flag := False, pd_end_flag := True\<rparr>))"
    by code_simp
  from a b exhaustion_is_permanent
    [of "make_prefix_iterator trie_ant [98]" _ 5 "make_predictive_iterator trie_ant [98]"]
  show ?thesis by blast
qed

section \<open>Round trip through the serialized form\<close>

lemma read_table_bytes: "read_table (table_bytes tb @ rest) = Some (tb, rest)"
proof -
  have len: "length (table_bytes tb) = 512" by (simp add: table_bytes_def)
  have "(\<lambda>i. (table_bytes tb @ rest) ! unat i) = tb"
  proof
    fix i :: "9 word"
    have lt: "unat i < 512" using unsigned_less [of i, where ?'a = nat] by simp
    then have "(table_bytes tb @ rest) ! unat i = table_bytes tb ! unat i"
      by (simp add: nth_append len)
    also have "\<dots> = tb (word_of_nat (unat i))"
      using lt unfolding table_bytes_def by (simp only: nth_map length_upt nth_upt minus_nat.diff_0 add_0)
    finally show "(table_bytes tb @ rest) ! unat i = tb i" by simp
  qed
  with len show ?thesis by (simp add: read_table_def)
qed

lemma Trie_read_write:
  assumes "codec_ok cd t"
  shows "Trie_read cd (Trie_write cd t [] @ rest) = Some (t, rest)"
  using assms
  by (simp add: codec_ok_def round_trips_def Trie_read_def Trie_write_def read_table_bytes)


lemma read_write_items: "read_items (write_items xs @ rest) = Some (xs, rest)"
  by (induction xs) (auto simp: neq_Nil_conv split: list.splits, (cases rest; simp)+)

lemma length_le_bytes: "length (le_bytes k n) = k"
  by (induction k arbitrary: n) auto

lemma le_value_le_bytes: "le_value (le_bytes k n) = n mod 256 ^ k"
proof (induction k arbitrary: n)
  case 0
  show ?case by simp
next
  case (Suc k)
  have "unat (word_of_nat (n mod 256) :: byte) = n mod 256"
    by (simp add: unat_of_nat)
  with Suc show ?case by (simp add: mod_mult2_eq)
qed

lemma read_le_bytes: "n < 256 ^ k \<Longrightarrow> read_le k (le_bytes k n @ rest) = Some (n, rest)"
  by (simp add: read_le_def length_le_bytes le_value_le_bytes)


lemma le_value_id: "word_of_nat (le_value (le_bytes 4 (unat (w :: id_type)))) = w"
proof -
  have "unat w < 256 ^ 4" using unsigned_less [of w, where ?'a = nat] by simp
  then show ?thesis by (simp add: le_value_le_bytes)
qed

lemma read_write_row: "read_row (write_row b i @ rest) = row_of b i"
proof -
  have l: "\<And>n. length (le_bytes 4 n) = 4" by (rule length_le_bytes)
  show ?thesis
    by (simp add: read_row_def write_row_def row_of_def l le_value_id nth_append
             del: le_bytes.simps)
qed

lemma length_write_row: "length (write_row b i) = 13"
  by (simp add: write_row_def length_le_bytes del: le_bytes.simps)

lemma read_write_rows:
  "read_rows n (concat (map (write_row b) [k..<k + n]) @ rest) = Some (map (row_of b) [k..<k + n], rest)"
proof (induction n arbitrary: k)
  case 0
  show ?case by simp
next
  case (Suc n)
  have split: "[k..<k + Suc n] = k # [Suc k..<Suc k + n]"
    by (simp add: upt_conv_Cons)
  have t: "take 13 (write_row b k @ concat (map (write_row b) [Suc k..<Suc k + n]) @ rest) = write_row b k"
    by (simp add: length_write_row)
  have "read_row (write_row b k) = row_of b k"
    using read_write_row [of b k "[]"] by simp
  with Suc.IH [of "Suc k"] t show ?case
    unfolding split by (simp add: length_write_row del: upt_Suc)
qed

lemma bc_rows_ant: "bc_of_rows (map (row_of (bc trie_ant)) [0..<6]) = bc trie_ant"
proof -
  have "map (row_of (bc trie_ant)) [0..<6] =
        [(1, ID_MAX, False, 0), (3, 0, False, 0), (6, 1, False, 0),
         (0, ID_MAX, False, 0), (0, 2, True, 0), (0, 2, True, 0)]"
    by code_simp
  then show ?thesis by (simp add: trie_ant_def)
qed

lemma codec_rows_ant: "codec_ok (codec_rows 6) trie_ant"
proof -
  have bc: "round_trips (write_bc (codec_rows 6)) (read_bc (codec_rows 6)) (bc trie_ant)"
    using read_write_rows [of 6 "bc trie_ant" 0] bc_rows_ant
    by (simp add: round_trips_def codec_rows_def)
  have items: "\<And>xs. round_trips write_items read_items xs"
    by (simp add: round_trips_def read_write_items)
  have bits: "\<And>bs. round_trips (write_BitVector (codec_rows 6)) (read_BitVector (codec_rows 6)) bs"
    by (simp add: round_trips_def codec_rows_def read_write_items comp_def)
  have sz: "\<And>n. n < 256 ^ 8 \<Longrightarrow> round_trips (le_bytes 8) (read_le 8) n"
    by (simp add: round_trips_def read_le_bytes)
  have bl: "\<And>b. round_trips (write_bool (codec_rows 6)) (read_bool (codec_rows 6)) b"
    by (simp add: round_trips_def codec_rows_def)
  have nk: "num_keys trie_ant < 256 ^ 8" "max_length trie_ant < 256 ^ 8"
    by (simp_all add: trie_ant_def)
  from bc bits bl items sz [OF nk(1)] sz [OF nk(2)] show ?thesis
    by (simp add: codec_ok_def codec_rows_def)
qed


text \<open>
  C5. When the serializers of the components read back what they wrote, the Trie read
  from the stream that \<^verbatim>\<open>write\<close> produced is the Trie that was written: the members are
  read in the order they were written. So \<^verbatim>\<open>lookup\<close>, \<^verbatim>\<open>access\<close> and both iterators give
  the same results on every input.
\<close>

theorem write_read_round_trip:
  assumes "codec_ok cd t"
  shows "\<exists>t'. Trie_read cd (Trie_write cd t []) = Some (t', []) \<and>
           (\<forall>key. lookup t' key = lookup t key) \<and>
           (\<forall>key_id. access t' key_id = access t key_id) \<and>
           (\<forall>key n. PrefixIterator_nexts (make_prefix_iterator t' key) n
                      = PrefixIterator_nexts (make_prefix_iterator t key) n) \<and>
           (\<forall>key n. PredictiveIterator_nexts (make_predictive_iterator t' key) n
                      = PredictiveIterator_nexts (make_predictive_iterator t key) n)"
proof -
  from assms have "Trie_read cd (Trie_write cd t []) = Some (t, [])"
    using Trie_read_write [of cd t "[]"] by simp
  then show ?thesis by simp
qed

theorem write_read_round_trip_witness:
  "codec_ok (codec_rows 6) trie_ant \<and>
   (\<exists>t'. Trie_read (codec_rows 6) (Trie_write (codec_rows 6) trie_ant []) = Some (t', []) \<and>
           (\<forall>key. lookup t' key = lookup trie_ant key) \<and>
           (\<forall>key_id. access t' key_id = access trie_ant key_id) \<and>
           (\<forall>key n. PrefixIterator_nexts (make_prefix_iterator t' key) n
                      = PrefixIterator_nexts (make_prefix_iterator trie_ant key) n) \<and>
           (\<forall>key n. PredictiveIterator_nexts (make_predictive_iterator t' key) n
                      = PredictiveIterator_nexts (make_predictive_iterator trie_ant key) n))"
  using codec_rows_ant write_read_round_trip [OF codec_rows_ant] by blast

section \<open>\<^verbatim>\<open>lookup\<close> after \<^verbatim>\<open>access\<close>\<close>

subsection \<open>Bit vectors\<close>

lemma rank_Cons_Suc: "rank (b # bs) (Suc i) = (if b then 1 else 0) + rank bs i"
  by (simp add: rank_def)

lemma select_spec:
  "k < length (filter (\<lambda>b. b) bv) \<Longrightarrow>
   select bv k < length bv \<and> bv ! select bv k \<and> rank bv (select bv k) = k"
proof (induction bv arbitrary: k)
  case Nil
  then show ?case by simp
next
  case (Cons b bs)
  show ?case
  proof (cases b)
    case False
    with Cons.prems have "k < length (filter (\<lambda>b. b) bs)" by simp
    from Cons.IH [OF this] False show ?thesis by (simp add: rank_Cons_Suc)
  next
    case True
    show ?thesis
    proof (cases k)
      case 0
      with True show ?thesis by (simp add: rank_def)
    next
      case (Suc j)
      with True Cons.prems have "j < length (filter (\<lambda>b. b) bs)" by simp
      from Cons.IH [OF this] True Suc show ?thesis by (simp add: rank_Cons_Suc)
    qed
  qed
qed

subsection \<open>Stored suffixes\<close>

lemma match_text_stored:
  "stored_text (tail t) p s \<Longrightarrow> s \<noteq> [] \<Longrightarrow>
   match_suffix_text t (pre @ s) (length pre) p = Inr True"
proof (induction s arbitrary: pre p)
  case Nil
  then show ?case by simp
next
  case (Cons x xs)
  show ?case
  proof (cases xs)
    case Nil
    with Cons.prems show ?thesis
      by (subst match_suffix_text.simps) simp
  next
    case (Cons y ys)
    with Cons.prems have st: "stored_text (tail t) (p + 1) xs" and ne: "xs \<noteq> []" by simp_all
    from Cons.IH [OF st ne, of "pre @ [x]"]
    have "match_suffix_text t (pre @ x # xs) (length pre + 1) (p + 1) = Inr True" by simp
    with Cons.prems Cons show ?thesis
      by (subst match_suffix_text.simps) simp
  qed
qed

lemma match_bin_stored:
  "stored_bin (tail t) (boundary_flags t) p s \<Longrightarrow>
   match_suffix_bin t (pre @ s) (length pre) p = Inr True"
proof (induction s arbitrary: pre p)
  case Nil
  then show ?case by simp
next
  case (Cons x xs)
  show ?case
  proof (cases xs)
    case Nil
    with Cons.prems show ?thesis
      by (subst match_suffix_bin.simps) simp
  next
    case (Cons y ys)
    with Cons.prems have st: "stored_bin (tail t) (boundary_flags t) (p + 1) xs" by simp
    from Cons.IH [OF st, of "pre @ [x]"]
    have "match_suffix_bin t (pre @ x # xs) (length pre + 1) (p + 1) = Inr True" by simp
    with Cons.prems Cons show ?thesis
      by (subst match_suffix_bin.simps) simp
  qed
qed

lemma match_suffix_stored:
  "stored t p s \<Longrightarrow> match_suffix t (pre @ s) (length pre) p = Inr True"
  by (auto simp: stored_def match_suffix_def match_text_stored match_bin_stored split: if_splits)

lemma extract_text_stored:
  "stored_text (tail t) p s \<Longrightarrow> extract_suffix_text t p dec = Inr (dec @ s)"
proof (induction s arbitrary: dec p)
  case Nil
  then show ?case by (subst extract_suffix_text.simps) simp
next
  case (Cons x xs)
  then have st: "stored_text (tail t) (p + 1) xs" by simp
  from Cons.IH [OF st, of "dec @ [x]"] Cons.prems show ?case
    by (subst extract_suffix_text.simps) simp
qed

lemma extract_bin_stored:
  "stored_bin (tail t) (boundary_flags t) p s \<Longrightarrow> extract_suffix_bin t p dec = Inr (dec @ s)"
proof (induction s arbitrary: dec p)
  case Nil
  then show ?case by simp
next
  case (Cons x xs)
  show ?case
  proof (cases xs)
    case Nil
    with Cons.prems show ?thesis by (subst extract_suffix_bin.simps) simp
  next
    case (Cons y ys)
    with Cons.prems have st: "stored_bin (tail t) (boundary_flags t) (p + 1) xs" by simp
    from Cons.IH [OF st, of "dec @ [x]"] Cons.prems Cons show ?thesis
      by (subst extract_suffix_bin.simps) simp
  qed
qed

lemma extract_suffix_stored:
  "stored t p s \<Longrightarrow> extract_suffix t p dec = Inr (dec @ s)"
  using extract_text_stored [of t p s dec] extract_bin_stored [of t p s dec]
  by (auto simp: stored_def extract_suffix_def split: if_splits)


lemma access_text_stored:
  "stored_text (tail t) p s \<Longrightarrow> s \<noteq> [] \<Longrightarrow> access_tail_text t p dec = Inr (dec @ s)"
  using access_tail_text_eq [of p t dec] extract_text_stored [of t p s dec]
  by (cases s) auto

lemma stored_bin_range: "stored_bin tb fl p s \<Longrightarrow> p < length tb"
  by (induction tb fl p s rule: stored_bin.induct) auto

lemma stored_text_range: "stored_text tb p s \<Longrightarrow> p < length tb"
  by (cases s) auto

lemma access_tail_stored:
  assumes "stored t (unat p) s" and "length (tail t) \<le> unat ID_MAX"
  shows "access_tail t p dec = Inr (dec @ s)"
proof (cases "p = 0")
  case True
  with assms show ?thesis by (simp add: access_tail_def stored_def)
next
  case False
  then have nz: "unat p \<noteq> 0" by (simp add: unat_eq_0)
  with assms(1) have ne: "s \<noteq> []" by (simp add: stored_def)
  from assms(1) nz have "unat p < length (tail t)"
    by (auto simp: stored_def dest: stored_bin_range stored_text_range split: if_splits)
  with assms(2) have "p \<noteq> NOT_FOUND" by (auto simp: NOT_FOUND_def)
  with False nz assms(1) ne show ?thesis
    by (auto simp: access_tail_def stored_def access_tail_bin_eq extract_bin_stored
                   access_text_stored)
qed

subsection \<open>Edges\<close>

lemma unat_byte_less: "unat (x :: byte) < 256"
  using unsigned_less [of x, where ?'a = nat] by simp

lemma unat_code: "unat (code t c) = unat (table t (ucast c))"
  using unat_byte_less [of "table t (ucast c)"]
  by (simp add: code_def unsigned_ucast_eq take_bit_nat_eq_self)

lemma unat_code_256: "unat (code t c + 256) = unat (table t (ucast c)) + 256"
proof -
  have "unat (code t c) + unat (256 :: id_type) < 2 ^ LENGTH(32)"
    using unat_byte_less [of "table t (ucast c)"] by (simp add: unat_code)
  then have "unat (code t c + 256) = unat (code t c) + unat (256 :: id_type)"
    by (simp only: unat_add_lem)
  then show ?thesis by (simp add: unat_code)
qed

lemma ucast_code_256:
  "(ucast (code t c + 256) :: 9 word) = ucast (table t (ucast c)) + 256"
proof -
  let ?b = "table t (ucast c)"
  have b: "unat ?b < 256" by (rule unat_byte_less)
  have l: "unat (ucast (code t c + 256) :: 9 word) = unat ?b + 256"
    using b by (simp add: unsigned_ucast_eq unat_code_256 take_bit_nat_eq_self)
  have u: "unat (ucast ?b :: 9 word) = unat ?b"
    using b by (simp add: unsigned_ucast_eq take_bit_nat_eq_self)
  have "unat (ucast ?b :: 9 word) + unat (256 :: 9 word) < 2 ^ LENGTH(9)"
    using b by (simp add: u)
  then have "unat ((ucast ?b :: 9 word) + 256) = unat (ucast ?b :: 9 word) + unat (256 :: 9 word)"
    by (simp only: unat_add_lem)
  with u have r: "unat ((ucast ?b :: 9 word) + 256) = unat ?b + 256" by simp
  from l r show ?thesis by (simp add: word_unat_eq_iff)
qed

lemma edge_child:
  assumes "\<forall>c :: byte. table t (ucast (table t (ucast c)) + 256) = c"
  shows "edge t n (child t n c) = Inr c"
proof -
  have x: "base (bc t) n XOR child t n c = code t c"
    by (simp add: child_def)
  have "unat (code t c + 256) < 512"
    using unat_byte_less [of "table t (ucast c)"] by (simp add: unat_code_256)
  with assms show ?thesis
    by (simp add: edge_def x ucast_code_256)
qed

lemma child_inj:
  assumes "\<forall>c :: byte. table t (ucast (table t (ucast c)) + 256) = c"
    and "child t n c = child t n c'"
  shows "c = c'"
proof -
  from assms(2) have "edge t n (child t n c) = edge t n (child t n c')" by simp
  with assms(1) show ?thesis by (simp add: edge_child)
qed


subsection \<open>The nodes of a represented trie\<close>

lemma entries_prefix:
  "(m, pm, sm) \<in> set (entries t n pa a) \<Longrightarrow> \<exists>q. pm = pa @ q"
proof (induction a arbitrary: n pa)
  case (ALeaf s)
  then show ?case by simp
next
  case (ANode b kids)
  from ANode.prems consider "pm = pa"
    | c a' where "(c, a') \<in> set kids" "(m, pm, sm) \<in> set (entries t (child t n c) (pa @ [c]) a')"
    by (auto split: if_splits)
  then show ?case
  proof cases
    case 1
    then show ?thesis by simp
  next
    case 2
    from ANode.IH [OF 2(1) _ 2(2)] obtain q where "pm = (pa @ [c]) @ q" by auto
    then show ?thesis by simp
  qed
qed

lemma access_up_child:
  assumes "table_inverse t" and "check (bc t) (child t n c) = n" and "child t n c \<noteq> 0"
  shows "access_up t (child t n c) acc = access_up t n (acc @ [c])"
  using assms edge_child [of t n c]
  by (subst access_up.simps) (simp add: table_inverse_def)

lemma entries_up:
  assumes "table_inverse t"
  shows "repr t n a \<Longrightarrow> (m, pm, sm) \<in> set (entries t n pa a) \<Longrightarrow>
    \<exists>q. pm = pa @ q \<and> (\<forall>acc. access_up t m acc = access_up t n (acc @ rev q))"
proof (induction a arbitrary: n pa)
  case (ALeaf s)
  then show ?case by simp
next
  case (ANode b kids)
  from ANode.prems(2) consider "m = n" "pm = pa"
    | c a' where "(c, a') \<in> set kids" "(m, pm, sm) \<in> set (entries t (child t n c) (pa @ [c]) a')"
    by (auto split: if_splits)
  then show ?case
  proof cases
    case 1
    then show ?thesis by simp
  next
    case 2
    from ANode.prems(1) 2(1)
    have ch: "check (bc t) (child t n c) = n" "child t n c \<noteq> 0" "repr t (child t n c) a'"
      by auto
    from ANode.IH [OF 2(1) _ ch(3) 2(2)]
    obtain q where q: "pm = (pa @ [c]) @ q"
      "\<forall>acc. access_up t m acc = access_up t (child t n c) (acc @ rev q)" by auto
    have "\<forall>acc. access_up t m acc = access_up t n (acc @ rev (c # q))"
      using q(2) access_up_child [OF assms ch(1) ch(2)] by simp
    with q(1) show ?thesis by (intro exI [of _ "c # q"]) simp
  qed
qed

lemma entries_kind:
  "repr t n a \<Longrightarrow> (m, pm, sm) \<in> set (entries t n pa a) \<Longrightarrow>
    unat m < length (terminal_flags t) \<and> terminal_flags t ! unat m \<and>
    (if is_leaf (bc t) m then stored t (unat (link (bc t) m)) sm else sm = [])"
proof (induction a arbitrary: n pa)
  case (ALeaf s)
  then show ?case by simp
next
  case (ANode b kids)
  from ANode.prems(2) consider "m = n" "pm = pa" "sm = []" "b"
    | c a' where "(c, a') \<in> set kids" "(m, pm, sm) \<in> set (entries t (child t n c) (pa @ [c]) a')"
    by (auto split: if_splits)
  then show ?case
  proof cases
    case 1
    with ANode.prems(1) show ?thesis by simp
  next
    case 2
    from ANode.prems(1) 2(1) have "repr t (child t n c) a'" by auto
    from ANode.IH [OF 2(1) _ this 2(2)] show ?thesis by simp
  qed
qed

lemma entries_lookup:
  "repr t n a \<Longrightarrow> (m, pm, sm) \<in> set (entries t n pa a) \<Longrightarrow>
    lookup_loop t (pm @ sm) (length pa) n = Inr (to_key_id t m)"
proof (induction a arbitrary: n pa)
  case (ALeaf s)
  then have "m = n" "pm = pa" "sm = s" by simp_all
  with ALeaf.prems(1) match_suffix_stored [of t "unat (link (bc t) n)" s pa] show ?case
    by (subst lookup_loop.simps) simp
next
  case (ANode b kids)
  from ANode.prems(2) consider "m = n" "pm = pa" "sm = []" "b"
    | c a' where "(c, a') \<in> set kids" "(m, pm, sm) \<in> set (entries t (child t n c) (pa @ [c]) a')"
    by (auto split: if_splits)
  then show ?case
  proof cases
    case 1
    with ANode.prems(1) show ?thesis
      by (subst lookup_loop.simps) simp
  next
    case 2
    from ANode.prems(1) 2(1)
    have ch: "check (bc t) (child t n c) = n" "repr t (child t n c) a'"
      and nl: "\<not> is_leaf (bc t) n"
      by auto
    from entries_prefix [OF 2(2)] obtain q where q: "pm = pa @ [c] @ q" by auto
    from ANode.IH [OF 2(1) _ ch(2) 2(2)]
    have "lookup_loop t (pm @ sm) (length pa + 1) (child t n c) = Inr (to_key_id t m)" by simp
    with q ch(1) nl show ?thesis
      by (subst lookup_loop.simps) (simp add: child_def Let_def nth_append)
  qed
qed


subsection \<open>Checking a concrete dictionary\<close>

lemma swap_code_range:
  "swap_code ps x = x \<or> swap_code ps x \<in> set (map fst ps) \<union> set (map snd ps)"
proof (induction ps)
  case Nil
  show ?case by simp
next
  case (Cons p ps)
  obtain a k where p: "p = (a, k)" by (cases p)
  show ?case
  proof (cases "x = a \<or> x = k")
    case True
    with p show ?thesis by auto
  next
    case False
    with p Cons.IH show ?thesis by auto
  qed
qed

lemma swap_code_involution:
  "distinct (map fst ps @ map snd ps) \<Longrightarrow> swap_code ps (swap_code ps x) = x"
proof (induction ps)
  case Nil
  show ?case by simp
next
  case (Cons p ps)
  obtain a k where p: "p = (a, k)" by (cases p)
  from Cons.prems p have d: "distinct (map fst ps @ map snd ps)"
    and ak: "a \<noteq> k" "a \<notin> set (map fst ps) \<union> set (map snd ps)"
      "k \<notin> set (map fst ps) \<union> set (map snd ps)"
    by auto
  show ?case
  proof (cases "x = a \<or> x = k")
    case True
    with p ak(1) show ?thesis by auto
  next
    case False
    with swap_code_range [of ps x] ak have "swap_code ps x \<noteq> a" "swap_code ps x \<noteq> k"
      by auto
    with False p Cons.IH [OF d] show ?thesis by simp
  qed
qed

lemma ucast_byte_9: "(ucast (ucast (c :: byte) :: 9 word) :: byte) = c"
  by (simp add: ucast_up_ucast_id is_up)

lemma ucast_byte_9_256: "(ucast ((ucast (y :: byte) :: 9 word) + 256) :: byte) = y"
proof -
  have y: "unat y < 256" by (rule unat_byte_less)
  have u: "unat (ucast y :: 9 word) = unat y"
    using y by (simp add: unsigned_ucast_eq take_bit_nat_eq_self)
  have "unat (ucast y :: 9 word) + unat (256 :: 9 word) < 2 ^ LENGTH(9)"
    using y by (simp add: u)
  then have "unat ((ucast y :: 9 word) + 256) = unat (ucast y :: 9 word) + unat (256 :: 9 word)"
    by (simp only: unat_add_lem)
  with u have "unat ((ucast y :: 9 word) + 256) = unat y + 256" by simp
  then have "unat (ucast ((ucast y :: 9 word) + 256) :: byte) = unat y"
    using y by (simp add: unsigned_ucast_eq take_bit_eq_mod)
  then show ?thesis by (simp add: word_unat_eq_iff)
qed

lemma table_inverse_table_of:
  "table t = table_of ps \<Longrightarrow> distinct (map fst ps @ map snd ps) \<Longrightarrow> table_inverse t"
  by (simp add: table_inverse_def table_of_def ucast_byte_9 ucast_byte_9_256
      swap_code_involution)

lemma ucast_code_9: "(ucast (code t c) :: 9 word) = ucast (table t (ucast c))"
proof -
  have "unat (ucast (code t c) :: 9 word) = unat (ucast (table t (ucast c)) :: 9 word)"
    using unat_byte_less [of "table t (ucast c)"]
    by (simp add: unsigned_ucast_eq unat_code take_bit_nat_eq_self)
  then show ?thesis by (simp add: word_unat_eq_iff)
qed

lemma closure_rows:
  assumes ti: "table_inverse t" and bc: "bc t = bc_of_rows rows" and n: "n \<noteq> ID_MAX"
    and rows: "\<forall>m \<in> {..<length rows}. fst (snd (rows ! m)) = n \<longrightarrow>
          table t (ucast (base (bc t) n XOR word_of_nat m) + 256) \<in> S"
    and chk: "check (bc t) (child t n c) = n"
  shows "c \<in> S"
proof -
  let ?m = "child t n c"
  from chk bc n have m: "unat ?m < length rows" "fst (snd (rows ! unat ?m)) = n"
    by (auto simp: bc_of_rows_def split: if_splits)
  with rows have "table t (ucast (base (bc t) n XOR word_of_nat (unat ?m)) + 256) \<in> S"
    by auto
  moreover have "base (bc t) n XOR child t n c = code t c" by (simp add: child_def)
  ultimately have "table t (ucast (code t c) + 256) \<in> S" by simp
  with ti show ?thesis by (simp add: ucast_code_9 table_inverse_def)
qed

lemma repr_rows_sound:
  assumes ti: "table_inverse t" and bc: "bc t = bc_of_rows rows"
  shows "repr_rows t rows n a \<Longrightarrow> repr t n a"
proof (induction a arbitrary: n)
  case (ALeaf s)
  then show ?case by simp
next
  case (ANode b kids)
  from ANode.prems have n: "n \<noteq> ID_MAX"
    and rows: "\<forall>m \<in> {..<length rows}. fst (snd (rows ! m)) = n \<longrightarrow>
          table t (ucast (base (bc t) n XOR word_of_nat m) + 256) \<in> fst ` set kids"
    by simp_all
  have cl: "\<forall>c. check (bc t) (child t n c) = n \<longrightarrow> c \<in> fst ` set kids"
    using closure_rows [OF ti bc n rows] by blast
  have kids: "\<forall>(c, a) \<in> set kids. c \<in> set (alphabet t) \<and> check (bc t) (child t n c) = n \<and>
          child t n c \<noteq> 0 \<and> repr t (child t n c) a"
  proof (clarify)
    fix c a' assume in_kids: "(c, a') \<in> set kids"
    with ANode.prems have k: "c \<in> set (alphabet t)" "check (bc t) (child t n c) = n"
      "child t n c \<noteq> 0" "repr_rows t rows (child t n c) a'" by auto
    from ANode.IH [OF in_kids _ k(4)] have "repr t (child t n c) a'" by simp
    with k show "c \<in> set (alphabet t) \<and> check (bc t) (child t n c) = n \<and>
          child t n c \<noteq> 0 \<and> repr t (child t n c) a'" by simp
  qed
  from ANode.prems cl kids show ?case by simp
qed

lemma unat_ID_MAX: "unat ID_MAX = 4294967295"
  by (simp add: ID_MAX_def unsigned_minus_1_eq_mask mask_eq_exp_minus_1)

lemma well_formed_rows_sound:
  assumes "bc t = bc_of_rows rows" and "table t = table_of ps"
    and "length (terminal_flags t) \<le> 4294967296" and "length (tail t) \<le> 4294967295"
    and "well_formed_rows t rows ps a"
  shows "well_formed t a"
proof -
  from assms(2,5) have ti: "table_inverse t"
    by (auto simp: well_formed_rows_def intro: table_inverse_table_of)
  from assms(5) have "repr_rows t rows 0 a" by (simp add: well_formed_rows_def)
  from repr_rows_sound [OF ti assms(1) this] have "repr t 0 a" .
  with ti assms(3,4,5) show ?thesis
    by (simp add: well_formed_def well_formed_rows_def unat_ID_MAX)
qed

lemma well_formed_abcd: "well_formed trie_abcd atrie_abcd"
proof (rule well_formed_rows_sound)
  show "bc trie_abcd = bc_of_rows
        [(4, ID_MAX, False, 0), (0, ID_MAX, False, 0), (0, ID_MAX, False, 0),
         (0, ID_MAX, False, 0), (0, 0, True, 1), (0, ID_MAX, False, 0), (0, 0, True, 3)]"
    by (simp add: trie_abcd_def)
  show "length (terminal_flags trie_abcd) \<le> 4294967296" "length (tail trie_abcd) \<le> 4294967295"
    by (simp_all add: trie_abcd_def)
  show "table trie_abcd = table_of [(97, 0), (98, 1), (99, 2), (100, 3)]"
    by (simp add: trie_abcd_def)
  show "well_formed_rows trie_abcd
        [(4, ID_MAX, False, 0), (0, ID_MAX, False, 0), (0, ID_MAX, False, 0),
         (0, ID_MAX, False, 0), (0, 0, True, 1), (0, ID_MAX, False, 0), (0, 0, True, 3)]
        [(97, 0), (98, 1), (99, 2), (100, 3)] atrie_abcd"
    by code_simp
qed

lemma well_formed_ant: "well_formed trie_ant atrie_ant"
proof (rule well_formed_rows_sound)
  show "bc trie_ant = bc_of_rows
        [(1, ID_MAX, False, 0), (3, 0, False, 0), (6, 1, False, 0),
         (0, ID_MAX, False, 0), (0, 2, True, 0), (0, 2, True, 0)]"
    by (simp add: trie_ant_def)
  show "length (terminal_flags trie_ant) \<le> 4294967296" "length (tail trie_ant) \<le> 4294967295"
    by (simp_all add: trie_ant_def)
  show "table trie_ant = table_of [(97, 0), (110, 1), (100, 2), (116, 3)]"
    by (simp add: trie_ant_def)
  show "well_formed_rows trie_ant
        [(1, ID_MAX, False, 0), (3, 0, False, 0), (6, 1, False, 0),
         (0, ID_MAX, False, 0), (0, 2, True, 0), (0, 2, True, 0)]
        [(97, 0), (110, 1), (100, 2), (116, 3)] atrie_ant"
    by code_simp
qed

lemma well_formed_bcd: "well_formed trie_bcd atrie_bcd"
proof (rule well_formed_rows_sound)
  show "bc trie_bcd = bc_of_rows
        [(2, ID_MAX, False, 0), (0, ID_MAX, False, 0), (0, 0, True, 0), (0, 0, True, 1)]"
    by (simp add: trie_bcd_def)
  show "length (terminal_flags trie_bcd) \<le> 4294967296" "length (tail trie_bcd) \<le> 4294967295"
    by (simp_all add: trie_bcd_def)
  show "table trie_bcd = table_of [(97, 0), (98, 1), (99, 2), (100, 3)]"
    by (simp add: trie_bcd_def)
  show "well_formed_rows trie_bcd
        [(2, ID_MAX, False, 0), (0, ID_MAX, False, 0), (0, 0, True, 0), (0, 0, True, 1)]
        [(97, 0), (98, 1), (99, 2), (100, 3)] atrie_bcd"
    by code_simp
qed


text \<open>
  C1. For every well-formed Trie and every id below \<^verbatim>\<open>num_keys\<close>, \<^verbatim>\<open>access\<close> returns a byte
  string (it returns, and without an error), and \<^verbatim>\<open>lookup\<close> of that byte string returns
  the id.
\<close>

theorem lookup_access:
  assumes wf: "well_formed t a" and inr: "unat key_id < num_keys t"
  shows "\<exists>key. access t key_id = Some (Inr key) \<and> lookup t key = Inr key_id"
proof -
  let ?tf = "terminal_flags t"
  let ?s = "select ?tf (unat key_id)"
  let ?n = "to_node_id t key_id"
  from wf have rep: "repr t 0 a" and ti: "table_inverse t"
    and len: "length ?tf \<le> 2 ^ 32" and tl: "length (tail t) \<le> unat ID_MAX"
    and nk: "num_keys t = length (filter (\<lambda>b. b) ?tf)"
    and tm: "\<forall>i \<in> {..<length ?tf}. ?tf ! i \<longrightarrow> word_of_nat i \<in> fst ` set (entries t 0 [] a)"
    by (simp_all add: well_formed_def)
  from inr nk have "unat key_id < length (filter (\<lambda>b. b) ?tf)" by simp
  from select_spec [OF this]
  have s: "?s < length ?tf" "?tf ! ?s" "rank ?tf ?s = unat key_id" by simp_all
  from s(1) len have un: "unat ?n = ?s"
    by (simp add: to_node_id_def unat_of_nat)
  from tm s(1) s(2) have "?n \<in> fst ` set (entries t 0 [] a)"
    by (auto simp: to_node_id_def)
  then obtain pm sm where e: "(?n, pm, sm) \<in> set (entries t 0 [] a)" by force
  from entries_up [OF ti rep e]
  have up: "access_up t ?n [] = access_up t 0 (rev pm)" by auto
  then have up: "access_up t ?n [] = Some (Inr (rev pm))"
    by (subst (asm) (2) access_up.simps) simp
  from entries_kind [OF rep e]
  have kind: "if is_leaf (bc t) ?n then stored t (unat (link (bc t) ?n)) sm else sm = []"
    by simp
  have tailp: "access_tail t (if is_leaf (bc t) ?n then link (bc t) ?n else NOT_FOUND) pm
      = Inr (pm @ sm)"
  proof (cases "is_leaf (bc t) ?n")
    case True
    with kind access_tail_stored [OF _ tl, of "link (bc t) ?n" sm pm] show ?thesis by simp
  next
    case False
    with kind show ?thesis by (simp add: access_tail_def)
  qed
  from inr up tailp have acc: "access t key_id = Some (Inr (pm @ sm))"
    by (simp add: access_def Let_def)
  from entries_lookup [OF rep e] have "lookup t (pm @ sm) = Inr (to_key_id t ?n)"
    by (simp add: lookup_def)
  also have "to_key_id t ?n = key_id"
    by (simp add: to_key_id_def un s(3))
  finally show ?thesis using acc by blast
qed



theorem lookup_access_witness:
  "well_formed trie_abcd atrie_abcd \<and> unat (1 :: id_type) < num_keys trie_abcd \<and>
   (\<exists>key. access trie_abcd 1 = Some (Inr key) \<and> lookup trie_abcd key = Inr 1)"
proof -
  have h: "unat (1 :: id_type) < num_keys trie_abcd" by code_simp
  from well_formed_abcd h lookup_access [OF well_formed_abcd h] show ?thesis by blast
qed

section \<open>Predictive search\<close>

subsection \<open>Keys\<close>

lemma entry_key_simp: "entry_key (m, pm, sm) = pm @ sm"
  by (simp add: entry_key_def)

lemma entries_akeys: "map entry_key (entries t n pa a) = map ((@) pa) (akeys a)"
proof (induction a arbitrary: n pa)
  case (ALeaf s)
  show ?case by (simp add: entry_key_simp)
next
  case (ANode b kids)
  have ih: "\<And>c a' n pa. (c, a') \<in> set kids \<Longrightarrow>
      map entry_key (entries t n pa a') = map ((@) pa) (akeys a')"
    using ANode.IH by force
  let ?F = "\<lambda>k. map entry_key (case k of (c, a) \<Rightarrow> entries t (child t n c) (pa @ [c]) a)"
  let ?G = "\<lambda>k. map ((@) pa) (case k of (c, a) \<Rightarrow> map ((#) c) (akeys a))"
  have eq: "map ?F kids = map ?G kids"
    by (rule map_cong) (auto simp: ih)
  have "map entry_key (concat (map (\<lambda>(c, a). entries t (child t n c) (pa @ [c]) a) kids))
      = concat (map ?F kids)"
    by (simp add: map_concat comp_def)
  also have "\<dots> = concat (map ?G kids)" by (simp only: eq)
  also have "\<dots> = map ((@) pa) (concat (map (\<lambda>(c, a). map ((#) c) (akeys a)) kids))"
    by (simp add: map_concat comp_def)
  finally show ?case by (simp add: entry_key_simp)
qed

lemma lex_less_Nil: "lex_less [] (c # k)"
  by (simp add: lex_less_def)

lemma lex_less_Cons_same: "lex_less (c # k) (c # k') = lex_less k k'"
  by (simp add: lex_less_def)

lemma lex_less_Cons_less: "c < c' \<Longrightarrow> lex_less (c # k) (c' # k')"
  by (simp add: lex_less_def)

lemma sorted_map_Cons:
  "sorted_wrt lex_less ks \<Longrightarrow> sorted_wrt lex_less (map ((#) c) ks)"
  by (induction ks) (auto simp: lex_less_Cons_same)

lemma akeys_sorted: "repr t n a \<Longrightarrow> sorted_wrt lex_less (akeys a)"
proof (induction a arbitrary: n)
  case (ALeaf s)
  show ?case by simp
next
  case (ANode b kids)
  from ANode.prems have srt: "sorted_wrt (<) (map fst kids)"
    and rep: "\<forall>(c, a) \<in> set kids. repr t (child t n c) a" by auto
  have each: "\<forall>(c, a) \<in> set kids. sorted_wrt lex_less (akeys a)"
    using ANode.IH rep by fastforce
  have "sorted_wrt lex_less (concat (map (\<lambda>(c, a). map ((#) c) (akeys a)) kids))"
    using srt each
  proof (induction kids)
    case Nil
    show ?case by simp
  next
    case (Cons k kids)
    obtain c a' where k: "k = (c, a')" by (cases k)
    from Cons.prems k have lt: "\<forall>c' \<in> fst ` set kids. c < c'" by auto
    have cross: "\<forall>x \<in> set (map ((#) c) (akeys a')).
        \<forall>y \<in> set (concat (map (\<lambda>(c, a). map ((#) c) (akeys a)) kids)). lex_less x y"
      using lt by (fastforce simp: lex_less_Cons_less)
    from Cons.prems k have "sorted_wrt lex_less (map ((#) c) (akeys a'))"
      by (simp add: sorted_map_Cons)
    moreover from Cons.IH Cons.prems
    have "sorted_wrt lex_less (concat (map (\<lambda>(c, a). map ((#) c) (akeys a)) kids))" by simp
    ultimately show ?case using cross k by (simp add: sorted_wrt_append)
  qed
  moreover have "\<forall>y \<in> set (concat (map (\<lambda>(c, a). map ((#) c) (akeys a)) kids)). lex_less [] y"
    by (auto simp: lex_less_Nil)
  ultimately show ?case by (simp add: sorted_wrt_append)
qed

subsection \<open>The frames pushed for the children\<close>

lemma push_children_eq:
  "push_children t n d cs stk =
     rev (map (child_frame t n d) (filter (\<lambda>c. check (bc t) (child t n c) = n) cs)) @ stk"
  by (induction cs arbitrary: stk) (simp_all add: Let_def child_def child_frame_def)

lemma valid_alphabet:
  assumes "repr t n (ANode b kids)" and "sorted_wrt (<) (alphabet t)"
  shows "filter (\<lambda>c. check (bc t) (child t n c) = n) (alphabet t) = map fst kids"
proof -
  let ?v = "\<lambda>c. check (bc t) (child t n c) = n"
  from assms(1) have srt: "sorted_wrt (<) (map fst kids)"
    and cl: "\<forall>c. ?v c \<longrightarrow> c \<in> fst ` set kids"
    and kd: "\<forall>(c, a) \<in> set kids. c \<in> set (alphabet t) \<and> ?v c" by auto
  have "set (filter ?v (alphabet t)) = set (map fst kids)"
    using cl kd by force
  moreover have "sorted_wrt (<) (filter ?v (alphabet t))"
    using assms(2) by (rule sorted_wrt_filter)
  ultimately show ?thesis
    using srt by (simp add: strict_sorted_iff sorted_distinct_set_unique)
qed

lemma push_children_kids:
  assumes "repr t n (ANode b kids)" and "sorted_wrt (<) (alphabet t)"
  shows "push_children t n d (rev (alphabet t)) stk = map (child_frame t n d) (map fst kids) @ stk"
  using valid_alphabet [OF assms]
  by (simp add: push_children_eq rev_map [symmetric] rev_filter [symmetric])

subsection \<open>One round of the traversal loop\<close>

lemma predictive_loop_empty:
  "pd_stack it = [] \<Longrightarrow> predictive_loop t it = Some (Inr (False, it\<lparr>pd_end_flag := True\<rparr>))"
  by (subst predictive_loop.simps) simp

lemma predictive_loop_frame:
  assumes "pd_stack it = fr # stk"
  shows "predictive_loop t it =
     (if is_leaf (bc t) (st_node_id fr) then
        Some (case extract_suffix t (unat (link (bc t) (st_node_id fr))) (pd_buf (popped it)) of
                Inl e \<Rightarrow> Inl e
              | Inr b \<Rightarrow> Inr (True, (popped it)\<lparr>pd_id := to_key_id t (st_node_id fr), pd_buf := b\<rparr>))
      else if length (terminal_flags t) \<le> unat (st_node_id fr) then Some (Inl FlagOutOfRange)
      else if terminal_flags t ! unat (st_node_id fr)
        then Some (Inr (True, (pushed t it)\<lparr>pd_id := to_key_id t (st_node_id fr)\<rparr>))
      else predictive_loop t (pushed t it))"
proof -
  have p: "popped it =
      (if 0 < st_depth fr
       then it\<lparr>pd_stack := stk, pd_buf := resize_back (st_depth fr) (st_c fr) (pd_buf it)\<rparr>
       else it\<lparr>pd_stack := stk\<rparr>)"
    using assms by (simp add: popped_def Let_def)
  show ?thesis
    using assms
    by (subst predictive_loop.simps) (simp add: p pushed_def Let_def cong: sum.case_cong)
qed

lemma list_update_last: "length xs = Suc k \<Longrightarrow> xs[k := x] = take k xs @ [x]"
proof (induction xs arbitrary: k)
  case Nil
  then show ?case by simp
next
  case (Cons y ys)
  then show ?case by (cases k) auto
qed

lemma resize_back_path:
  assumes "pa \<noteq> []" and "prefix (butlast pa) buf"
  shows "resize_back (length pa) (last pa) buf = pa"
proof -
  let ?d = "length pa"
  let ?l = "take ?d buf @ replicate (?d - length buf) 0"
  from assms(1) obtain k where k: "?d = Suc k" by (cases pa) auto
  from assms(2) obtain r where r: "buf = butlast pa @ r" by (auto simp: prefix_def)
  have len: "length ?l = Suc k" using k by auto
  have "take k ?l = butlast pa" using k r by (cases r) auto
  with list_update_last [OF len, of "last pa"] have "?l[k := last pa] = butlast pa @ [last pa]"
    by simp
  with assms(1) k show ?thesis by (simp add: resize_back_def)
qed

lemma chain_mono: "chain buf fs \<Longrightarrow> prefix buf buf' \<Longrightarrow> chain buf' fs"
  by (cases fs) (auto intro: prefix_order.trans)

lemma chain_children:
  "chain pa fs \<Longrightarrow>
   chain pa (map (\<lambda>(c, a'). (pa @ [c], child t n c, a')) kids @ fs)"
  by (induction kids) auto

lemma frames_children:
  assumes "repr t n (ANode b kids)"
  shows "list_all2 (frame_rel t) (map (child_frame t n (length pa)) (map fst kids))
           (map (\<lambda>(c, a'). (pa @ [c], child t n c, a')) kids)"
  using assms
  by (auto simp: list_all2_map1 list_all2_map2 list_all2_same frame_rel_def child_frame_def)

lemma frames_out_children:
  "frames_out t (map (\<lambda>(c, a'). (pa @ [c], child t n c, a')) kids @ fs) =
     concat (map (\<lambda>(c, a). entries t (child t n c) (pa @ [c]) a) kids) @ frames_out t fs"
  by (simp add: frames_out_def comp_def case_prod_unfold)

lemma frames_size_children:
  "frames_size (map (\<lambda>(c, a'). (pa @ [c], child t n c, a')) kids @ fs) =
     sum_list (map (\<lambda>(c, a). asize a) kids) + frames_size fs"
  by (simp add: frames_size_def comp_def case_prod_unfold)

lemma popped_fields:
  assumes "pd_stack it = fr # stk"
  shows "pd_stack (popped it) = stk" "pd_trie (popped it) = pd_trie it"
    "pd_end_flag (popped it) = pd_end_flag it" "pd_begin_flag (popped it) = pd_begin_flag it"
    "pd_key (popped it) = pd_key it"
  using assms by (simp_all add: popped_def Let_def)

lemma popped_buf:
  assumes "pd_stack it = fr # stk" and "frame_rel t fr (pa, n, a)"
    and "frames_inv (pd_buf it) ((pa, n, a) # fs)"
  shows "pd_buf (popped it) = pa"
proof (cases "pa = []")
  case True
  with assms show ?thesis by (auto simp: popped_def Let_def frame_rel_def frames_inv_def)
next
  case False
  with assms(3) have "prefix (butlast pa) (pd_buf it)" by (auto simp: frames_inv_def)
  from resize_back_path [OF False this] False assms(1,2) show ?thesis
    by (simp add: popped_def Let_def frame_rel_def)
qed

lemma frames_inv_rest:
  assumes "frames_inv buf ((pa, n, a) # fs)"
  shows "chain pa fs"
proof (cases "pa = []")
  case True
  with assms show ?thesis by (auto simp: frames_inv_def)
next
  case False
  with assms have "chain (butlast pa) fs" by (auto simp: frames_inv_def)
  moreover have "prefix (butlast pa) pa" by (cases pa rule: rev_cases) simp_all
  ultimately show ?thesis by (rule chain_mono)
qed

lemma predictive_loop_step:
  assumes alpha: "sorted_wrt (<) (alphabet t)"
  shows "list_all2 (frame_rel t) (pd_stack it) fs \<Longrightarrow> frames_inv (pd_buf it) fs \<Longrightarrow>
    step_result t it (frames_out t fs) (predictive_loop t it)"
proof (induction "frames_size fs" arbitrary: it fs rule: less_induct)
  case less
  show ?case
  proof (cases fs)
    case Nil
    with less.prems(1) have "pd_stack it = []" by simp
    with Nil show ?thesis
      by (simp add: predictive_loop_empty step_result_def frames_out_def)
  next
    case (Cons f fs1)
    obtain pa n a where f: "f = (pa, n, a)" by (cases f)
    from less.prems(1) Cons f obtain fr stk where st: "pd_stack it = fr # stk"
      and fr: "frame_rel t fr (pa, n, a)" and rest: "list_all2 (frame_rel t) stk fs1"
      by (auto simp: list_all2_Cons2)
    from fr have node: "st_node_id fr = n" and depth: "st_depth fr = length pa"
      and rep: "repr t n a"
      by (simp_all add: frame_rel_def)
    from less.prems(2) Cons f have inv: "frames_inv (pd_buf it) ((pa, n, a) # fs1)" by simp
    have buf: "pd_buf (popped it) = pa" by (rule popped_buf [OF st fr inv])
    have ch: "chain pa fs1" by (rule frames_inv_rest [OF inv])
    note pf = popped_fields [OF st]
    show ?thesis
    proof (cases a)
      case (ALeaf sfx)
      with rep have leaf: "is_leaf (bc t) n" and sto: "stored t (unat (link (bc t) n)) sfx"
        by simp_all
      let ?it' = "(popped it)\<lparr>pd_id := to_key_id t n, pd_buf := pa @ sfx\<rparr>"
      have run: "predictive_loop t it = Some (Inr (True, ?it'))"
        using leaf extract_suffix_stored [OF sto, of pa]
        by (simp add: predictive_loop_frame [OF st] node buf)
      have out: "frames_out t fs = (n, pa, sfx) # frames_out t fs1"
        using Cons f ALeaf by (simp add: frames_out_def)
      have "chain (pa @ sfx) fs1" using ch by (rule chain_mono) simp
      then have "frames_inv (pd_buf ?it') fs1" by (simp add: frames_inv_def)
      with run rest pf show ?thesis
        unfolding step_result_def out
        by (simp add: entry_key_simp) (rule exI [of _ fs1], simp)
    next
      case (ANode b kids)
      let ?fs' = "map (\<lambda>(c, a'). (pa @ [c], child t n c, a')) kids @ fs1"
      from rep ANode have inner: "\<not> is_leaf (bc t) n"
        and tf: "unat n < length (terminal_flags t)" "terminal_flags t ! unat n = b"
        and rep': "repr t n (ANode b kids)"
        by simp_all
      have stack: "pd_stack (pushed t it) = map (child_frame t n (length pa)) (map fst kids) @ stk"
        using push_children_kids [OF rep' alpha] st
        by (simp add: pushed_def node depth pf)
      have pbuf: "pd_buf (pushed t it) = pa" by (simp add: pushed_def buf)
      have rel': "list_all2 (frame_rel t) (pd_stack (pushed t it)) ?fs'"
        unfolding stack using frames_children [OF rep'] rest by (rule list_all2_appendI)
      have inv': "frames_inv (pd_buf (pushed t it)) ?fs'"
        using chain_children [OF ch] by (simp add: frames_inv_def pbuf)
      have out: "frames_out t fs = (if b then [(n, pa, [])] else []) @ frames_out t ?fs'"
        using Cons f ANode by (simp add: frames_out_children) (simp add: frames_out_def)
      have flds: "pd_trie (pushed t it) = pd_trie it" "pd_end_flag (pushed t it) = pd_end_flag it"
        "pd_begin_flag (pushed t it) = pd_begin_flag it"
        by (simp_all add: pushed_def pf)
      show ?thesis
      proof (cases b)
        case True
        let ?it' = "(pushed t it)\<lparr>pd_id := to_key_id t n\<rparr>"
        have run: "predictive_loop t it = Some (Inr (True, ?it'))"
          using inner tf True by (simp add: predictive_loop_frame [OF st] node)
        from rel' inv' flds pbuf show ?thesis
          unfolding step_result_def out run using True
          by (simp add: entry_key_simp) (rule exI [of _ ?fs'], simp)
      next
        case False
        have run: "predictive_loop t it = predictive_loop t (pushed t it)"
          using inner tf False by (simp add: predictive_loop_frame [OF st] node)
        have "frames_size ?fs' < frames_size fs"
          using Cons f ANode by (simp add: frames_size_children) (simp add: frames_size_def)
        from less.hyps [OF this rel' inv']
        have "step_result t (pushed t it) (frames_out t ?fs') (predictive_loop t (pushed t it))" .
        with False show ?thesis
          unfolding out run by (simp add: step_result_def flds cong: list.case_cong)
      qed
    qed
  qed
qed

subsection \<open>Collecting the hits of the traversal\<close>

lemma predictive_collect_loop:
  assumes alpha: "sorted_wrt (<) (alphabet t)"
  shows "pd_trie it = Some t \<Longrightarrow> \<not> pd_end_flag it \<Longrightarrow> \<not> pd_begin_flag it \<Longrightarrow>
    list_all2 (frame_rel t) (pd_stack it) fs \<Longrightarrow> frames_inv (pd_buf it) fs \<Longrightarrow>
    predictive_collect it acc = Some (Inr (acc @ map (entry_hit t) (frames_out t fs)))"
proof (induction "frames_out t fs" arbitrary: it fs acc)
  case Nil
  from predictive_loop_step [OF alpha Nil.prems(4,5)] Nil.hyps
  obtain it' where "predictive_loop t it = Some (Inr (False, it'))"
    by (auto simp: step_result_def)
  with Nil.prems(1,2,3) have "PredictiveIterator_next it = Some (Inr (False, it'))"
    by (simp add: PredictiveIterator_next_def next_predictive_def)
  with Nil.hyps [symmetric] show ?case
    by (subst predictive_collect.simps) simp
next
  case (Cons e rest)
  from predictive_loop_step [OF alpha Cons.prems(4,5)] Cons.hyps(2) [symmetric]
  obtain it' fs' where r: "predictive_loop t it = Some (Inr (True, it'))"
    and it': "pd_buf it' = entry_key e" "pd_id it' = to_key_id t (fst e)"
      "list_all2 (frame_rel t) (pd_stack it') fs'" "frames_inv (pd_buf it') fs'"
      "frames_out t fs' = rest" "pd_trie it' = pd_trie it"
      "pd_end_flag it' = pd_end_flag it" "pd_begin_flag it' = pd_begin_flag it"
    by (auto simp: step_result_def)
  from r Cons.prems(1,2,3) have nx: "PredictiveIterator_next it = Some (Inr (True, it'))"
    by (simp add: PredictiveIterator_next_def next_predictive_def)
  from it' Cons.prems(1,2,3)
  have "predictive_collect it' (acc @ [entry_hit t e])
      = Some (Inr ((acc @ [entry_hit t e]) @ map (entry_hit t) (frames_out t fs')))"
    by (intro Cons.hyps(1)) simp_all
  with nx it' Cons.hyps(2) [symmetric] show ?case
    by (subst predictive_collect.simps)
       (simp add: PredictiveIterator_key_def entry_hit_def)
qed

subsection \<open>The descent along the input\<close>

lemma predictive_finish_stored:
  assumes "stored t q s"
  shows "predictive_finish t it n q =
    Inr (Some True, it\<lparr>pd_id := to_key_id t n, pd_buf := pd_buf it @ s\<rparr>)"
  using extract_suffix_stored [OF assms, of "pd_buf it"]
  by (simp add: predictive_finish_def)

lemma predictive_match_text_correct:
  assumes tmode: "\<not> bin_mode t"
  shows "stored_text (tail t) q s \<Longrightarrow> pos < length (pd_key it) \<Longrightarrow>
    (prefix (drop pos (pd_key it)) s \<longrightarrow>
       predictive_match_text t it n pos q =
         Inr (Some True, it\<lparr>pd_id := to_key_id t n, pd_buf := pd_buf it @ s\<rparr>)) \<and>
    (\<not> prefix (drop pos (pd_key it)) s \<longrightarrow>
       (\<exists>it'. predictive_match_text t it n pos q = Inr (Some False, it')))"
proof (induction s arbitrary: pos q it)
  case Nil
  then show ?case
    by (subst predictive_match_text.simps) simp
next
  case (Cons x xs)
  let ?key = "pd_key it"
  from Cons.prems(1) have q: "q < length (tail t)" "tail t ! q = x" "x \<noteq> 0"
    and st: "stored_text (tail t) (q + 1) xs" by simp_all
  from Cons.prems(2) have dr: "drop pos ?key = ?key ! pos # drop (pos + 1) ?key"
    by (simp add: Cons_nth_drop_Suc)
  show ?case
  proof (cases "?key ! pos = x")
    case False
    with q Cons.prems(2) dr show ?thesis
      by (subst predictive_match_text.simps) simp
  next
    case True
    let ?it1 = "it\<lparr>pd_buf := pd_buf it @ [?key ! pos]\<rparr>"
    show ?thesis
    proof (cases "pos + 1 < length ?key")
      case more: True
      have step: "predictive_match_text t it n pos q = predictive_match_text t ?it1 n (pos + 1) (q + 1)"
        using q True more Cons.prems(2)
        by (subst predictive_match_text.simps) (simp add: Let_def)
      from Cons.IH [OF st, of "pos + 1" ?it1] more True step dr show ?thesis
        by simp
    next
      case last: False
      with Cons.prems(2) have e: "drop (pos + 1) ?key = []" by simp
      have sto: "stored t (q + 1) xs \<or> xs = []"
        using st tmode by (cases xs) (simp_all add: stored_def)
      have fin: "predictive_finish t ?it1 n (q + 1) =
          Inr (Some True, ?it1\<lparr>pd_id := to_key_id t n, pd_buf := pd_buf ?it1 @ xs\<rparr>)"
        using extract_text_stored [OF st, of "pd_buf ?it1"] tmode
        by (simp add: predictive_finish_def extract_suffix_def)
      have "predictive_match_text t it n pos q = predictive_finish t ?it1 n (q + 1)"
        using q True last Cons.prems(2)
        by (subst predictive_match_text.simps) (simp add: Let_def)
      with fin True dr e show ?thesis by simp
    qed
  qed
qed

lemma predictive_match_bin_correct:
  assumes bin: "bin_mode t"
  shows "stored_bin (tail t) (boundary_flags t) q s \<Longrightarrow> pos < length (pd_key it) \<Longrightarrow>
    (prefix (drop pos (pd_key it)) s \<longrightarrow>
       predictive_match_bin t it n pos q =
         Inr (Some True, it\<lparr>pd_id := to_key_id t n, pd_buf := pd_buf it @ s\<rparr>)) \<and>
    (\<not> prefix (drop pos (pd_key it)) s \<longrightarrow>
       (\<exists>it'. predictive_match_bin t it n pos q = Inr (Some False, it')))"
proof (induction s arbitrary: pos q it)
  case Nil
  then show ?case by simp
next
  case (Cons x xs)
  let ?key = "pd_key it"
  let ?it1 = "it\<lparr>pd_buf := pd_buf it @ [?key ! pos]\<rparr>"
  from Cons.prems(2) have dr: "drop pos ?key = ?key ! pos # drop (pos + 1) ?key"
    by (simp add: Cons_nth_drop_Suc)
  show ?case
  proof (cases xs)
    case Nil
    with Cons.prems(1) have q: "q < length (tail t)" "q < length (boundary_flags t)"
      "tail t ! q = x" "boundary_flags t ! q" by simp_all
    show ?thesis
    proof (cases "?key ! pos = x")
      case False
      with q Cons.prems(2) dr show ?thesis
        by (subst predictive_match_bin.simps) simp
    next
      case True
      show ?thesis
      proof (cases "pos + 1 = length ?key")
        case True
        with \<open>?key ! pos = x\<close> q Cons.prems(2) dr Nil show ?thesis
          by (subst predictive_match_bin.simps) (simp add: Let_def)
      next
        case False
        with Cons.prems(2) have "drop (pos + 1) ?key \<noteq> []" by simp
        with False \<open>?key ! pos = x\<close> q Cons.prems(2) dr Nil show ?thesis
          by (subst predictive_match_bin.simps) (simp add: Let_def)
      qed
    qed
  next
    case (Cons y ys)
    with Cons.prems(1) have q: "q < length (tail t)" "q < length (boundary_flags t)"
      "tail t ! q = x" "\<not> boundary_flags t ! q"
      and st: "stored_bin (tail t) (boundary_flags t) (q + 1) xs" by simp_all
    show ?thesis
    proof (cases "?key ! pos = x")
      case False
      with q Cons.prems(2) dr show ?thesis
        by (subst predictive_match_bin.simps) simp
    next
      case True
      show ?thesis
      proof (cases "pos + 1 < length ?key")
        case more: True
        have step: "predictive_match_bin t it n pos q = predictive_match_bin t ?it1 n (pos + 1) (q + 1)"
          using q True more Cons.prems(2)
          by (subst predictive_match_bin.simps) (simp add: Let_def)
        from Cons.IH [OF st, of "pos + 1" ?it1] more True step dr show ?thesis
          by simp
      next
        case last: False
        with Cons.prems(2) have e: "drop (pos + 1) ?key = []" by simp
        have fin: "predictive_finish t ?it1 n (q + 1) =
            Inr (Some True, ?it1\<lparr>pd_id := to_key_id t n, pd_buf := pd_buf ?it1 @ xs\<rparr>)"
          using extract_bin_stored [OF st, of "pd_buf ?it1"] bin
          by (simp add: predictive_finish_def extract_suffix_def)
        have "predictive_match_bin t it n pos q = predictive_finish t ?it1 n (q + 1)"
          using q True last Cons.prems(2)
          by (subst predictive_match_bin.simps) (simp add: Let_def)
        with fin True dr e show ?thesis by simp
      qed
    qed
  qed
qed

lemma hits_all:
  "hits p (entries t n p a) = entries t n p a"
proof -
  have "\<forall>e \<in> set (entries t n p a). prefix p (entry_key e)"
  proof
    fix e assume e: "e \<in> set (entries t n p a)"
    obtain m pm sm where "e = (m, pm, sm)" by (cases e)
    with e entries_prefix [of m pm sm t n p a] show "prefix p (entry_key e)"
      by (auto simp: entry_key_simp)
  qed
  then show ?thesis by (simp add: hits_def)
qed

lemma hits_other_child:
  assumes "pos < length p" and "c \<noteq> p ! pos"
  shows "hits p (entries t m (take pos p @ [c]) a) = []"
proof -
  have "\<forall>e \<in> set (entries t m (take pos p @ [c]) a). \<not> prefix p (entry_key e)"
  proof
    fix e assume e: "e \<in> set (entries t m (take pos p @ [c]) a)"
    obtain m' pm sm where e': "e = (m', pm, sm)" by (cases e)
    with e entries_prefix [of m' pm sm t m "take pos p @ [c]" a]
    obtain q where q: "pm = (take pos p @ [c]) @ q" by auto
    show "\<not> prefix p (entry_key e)"
    proof
      assume "prefix p (entry_key e)"
      then obtain r where "entry_key e = p @ r" by (auto simp: prefix_def)
      with e' q have "take pos p @ c # q @ sm = p @ r" by (simp add: entry_key_simp)
      then have "(take pos p @ c # q @ sm) ! pos = (p @ r) ! pos" by simp
      with assms show False by (simp add: nth_append)
    qed
  qed
  then show ?thesis by (simp add: hits_def)
qed

lemma hits_children:
  assumes "pos < length p" and "distinct (map fst kids)"
  shows "hits p (concat (map (\<lambda>(c, a). entries t (child t n c) (take pos p @ [c]) a) kids)) =
    (case map_of kids (p ! pos) of
       None \<Rightarrow> []
     | Some a \<Rightarrow> hits p (entries t (child t n (p ! pos)) (take pos p @ [p ! pos]) a))"
  using assms(2)
proof (induction kids)
  case Nil
  show ?case by (simp add: hits_def)
next
  case (Cons k kids)
  obtain c a where k: "k = (c, a)" by (cases k)
  have app: "\<And>xs ys. hits p (xs @ ys) = hits p xs @ hits p ys" by (simp add: hits_def)
  show ?case
  proof (cases "c = p ! pos")
    case True
    with Cons.prems k have "map_of kids (p ! pos) = None"
      by (simp add: map_of_eq_None_iff)
    with Cons.IH Cons.prems k True show ?thesis by (simp add: app)
  next
    case False
    with Cons.IH Cons.prems k hits_other_child [OF assms(1) False] show ?thesis
      by (simp add: app)
  qed
qed

lemma hits_inner:
  assumes "pos < length p" and "sorted_wrt (<) (map fst kids)"
  shows "hits p (entries t n (take pos p) (ANode b kids)) =
    (case map_of kids (p ! pos) of
       None \<Rightarrow> []
     | Some a \<Rightarrow> hits p (entries t (child t n (p ! pos)) (take pos p @ [p ! pos]) a))"
proof -
  from assms(2) have d: "distinct (map fst kids)" by (simp add: strict_sorted_iff)
  have "\<not> prefix p (take pos p)"
    using assms(1) by (auto dest!: prefix_length_le)
  then have "hits p (if b then [(n, take pos p, [])] else []) = []"
    by (simp add: hits_def entry_key_simp)
  with hits_children [OF assms(1) d] show ?thesis
    by (simp add: hits_def)
qed

lemma descend_result_fields:
  assumes "descend_result t it1 es r" and "pd_trie it1 = pd_trie it"
    and "pd_end_flag it1 = pd_end_flag it" and "pd_begin_flag it1 = pd_begin_flag it"
  shows "descend_result t it es r"
  using assms unfolding descend_result_def by simp

lemma descend_at_end:
  assumes rep: "repr t n a" and buf: "pd_buf it = pd_key it" and stk: "pd_stack it = []"
  shows "descend_result t it (entries t n (pd_key it) a)
           (predictive_descend t it n (length (pd_key it)))"
proof -
  let ?p = "pd_key it"
  let ?fr = "\<lparr>st_depth = length ?p, st_c = (if pd_buf it \<noteq> [] then last (pd_buf it) else 0),
              st_node_id = n\<rparr>"
  let ?it' = "it\<lparr>pd_stack := [?fr]\<rparr>"
  have run: "predictive_descend t it n (length ?p) = Inr (None, ?it')"
    using stk by (subst predictive_descend.simps) simp
  have rel: "list_all2 (frame_rel t) (pd_stack ?it') [(?p, n, a)]"
    using rep buf by (simp add: frame_rel_def)
  have "prefix (butlast ?p) ?p" by (cases ?p rule: rev_cases) simp_all
  then have inv: "frames_inv (pd_buf ?it') [(?p, n, a)]"
    using buf by (cases "?p = []") (simp_all add: frames_inv_def)
  have out: "frames_out t [(?p, n, a)] = entries t n ?p a" by (simp add: frames_out_def)
  from run rel inv out show ?thesis
    unfolding descend_result_def by (intro disjI1 exI [of _ ?it'] exI [of _ "[(?p, n, a)]"]) simp
qed

lemma descend_correct:
  "repr t n a \<Longrightarrow> pos \<le> length (pd_key it) \<Longrightarrow> pd_buf it = take pos (pd_key it) \<Longrightarrow>
   pd_stack it = [] \<Longrightarrow>
   descend_result t it (hits (pd_key it) (entries t n (take pos (pd_key it)) a))
     (predictive_descend t it n pos)"
proof (induction a arbitrary: n pos it)
  case (ALeaf sfx)
  let ?p = "pd_key it"
  show ?case
  proof (cases "pos < length ?p")
    case False
    with ALeaf.prems descend_at_end [of t n "ALeaf sfx" it] show ?thesis
      by (simp add: hits_all del: entries.simps)
  next
    case True
    let ?it1 = "it\<lparr>pd_end_flag := True\<rparr>"
    let ?q = "unat (link (bc t) n)"
    from ALeaf.prems(1) have leaf: "is_leaf (bc t) n" and sto: "stored t ?q sfx" by simp_all
    have "prefix (take pos ?p @ drop pos ?p) (take pos ?p @ sfx) = prefix (drop pos ?p) sfx"
      by (rule same_prefix_prefix)
    then have pre: "prefix ?p (take pos ?p @ sfx) = prefix (drop pos ?p) sfx" by simp
    have es: "hits ?p (entries t n (take pos ?p) (ALeaf sfx)) =
        (if prefix (drop pos ?p) sfx then [(n, take pos ?p, sfx)] else [])"
      by (simp add: hits_def entry_key_simp pre)
    have ne: "drop pos ?p \<noteq> []" using True by simp
    show ?thesis
    proof (cases "?q = 0")
      case True
      with sto have "sfx = []" by (simp add: stored_def)
      with ne have np: "\<not> prefix (drop pos ?p) sfx" by simp
      have "predictive_descend t it n pos = Inr (Some False, ?it1)"
        using \<open>pos < length ?p\<close> leaf True by (subst predictive_descend.simps) (simp add: Let_def)
      with np show ?thesis unfolding descend_result_def es by simp
    next
      case False
      with sto have sne: "sfx \<noteq> []" by (simp add: stored_def)
      have m: "(prefix (drop pos ?p) sfx \<longrightarrow>
           predictive_descend t it n pos =
             Inr (Some True, ?it1\<lparr>pd_id := to_key_id t n, pd_buf := pd_buf ?it1 @ sfx\<rparr>)) \<and>
         (\<not> prefix (drop pos ?p) sfx \<longrightarrow>
           (\<exists>it'. predictive_descend t it n pos = Inr (Some False, it')))"
      proof (cases "bin_mode t")
        case True
        with sto False have sb: "stored_bin (tail t) (boundary_flags t) ?q sfx"
          by (simp add: stored_def)
        have "predictive_descend t it n pos = predictive_match_bin t ?it1 n pos ?q"
          using \<open>pos < length ?p\<close> leaf False True
          by (subst predictive_descend.simps) (simp add: Let_def)
        with predictive_match_bin_correct [OF True sb, of pos ?it1 n] \<open>pos < length ?p\<close>
        show ?thesis by simp
      next
        case tm: False
        with sto False have sb: "stored_text (tail t) ?q sfx"
          by (simp add: stored_def)
        have "predictive_descend t it n pos = predictive_match_text t ?it1 n pos ?q"
          using \<open>pos < length ?p\<close> leaf False tm
          by (subst predictive_descend.simps) (simp add: Let_def)
        with predictive_match_text_correct [OF tm sb, of pos ?it1 n] \<open>pos < length ?p\<close>
        show ?thesis by simp
      qed
      show ?thesis
      proof (cases "prefix (drop pos ?p) sfx")
        case True
        with m ALeaf.prems(3) show ?thesis
          unfolding descend_result_def es
          by (intro disjI2) (simp add: entry_key_simp)
      next
        case False
        with m show ?thesis unfolding descend_result_def es by auto
      qed
    qed
  qed
next
  case (ANode b kids)
  let ?p = "pd_key it"
  show ?case
  proof (cases "pos < length ?p")
    case False
    with ANode.prems descend_at_end [of t n "ANode b kids" it] show ?thesis
      by (simp add: hits_all del: entries.simps)
  next
    case True
    let ?c = "?p ! pos"
    let ?m = "child t n ?c"
    from ANode.prems(1) have inner: "\<not> is_leaf (bc t) n"
      and srt: "sorted_wrt (<) (map fst kids)"
      and cl: "\<forall>c. check (bc t) (child t n c) = n \<longrightarrow> c \<in> fst ` set kids"
      and kd: "\<forall>(c, a) \<in> set kids. check (bc t) (child t n c) = n \<and> repr t (child t n c) a"
      by auto
    note es = hits_inner [OF True srt, of t n b]
    show ?thesis
    proof (cases "check (bc t) ?m = n")
      case False
      have "map_of kids ?c = None"
      proof (cases "map_of kids ?c")
        case (Some a')
        then have "(?c, a') \<in> set kids" by (rule map_of_SomeD)
        with kd False show ?thesis by auto
      qed simp
      moreover have "predictive_descend t it n pos = Inr (Some False, it\<lparr>pd_end_flag := True\<rparr>)"
        using True inner False
        by (subst predictive_descend.simps) (simp add: Let_def child_def)
      ultimately show ?thesis unfolding descend_result_def es by simp
    next
      case chk: True
      with cl have "?c \<in> fst ` set kids" by simp
      then obtain a' where a': "map_of kids ?c = Some a'"
        by (cases "map_of kids ?c") (auto simp: map_of_eq_None_iff)
      then have mem: "(?c, a') \<in> set kids" by (rule map_of_SomeD)
      with kd have rep': "repr t ?m a'" by auto
      let ?it1 = "it\<lparr>pd_buf := pd_buf it @ [?c]\<rparr>"
      have k1: "pd_key ?it1 = ?p" by simp
      have tk: "take (pos + 1) ?p = take pos ?p @ [?c]"
        using True by (simp add: take_Suc_conv_app_nth)
      have run: "predictive_descend t it n pos = predictive_descend t ?it1 ?m (pos + 1)"
        using True inner chk
        by (subst predictive_descend.simps) (simp add: Let_def child_def)
      have "descend_result t ?it1 (hits (pd_key ?it1) (entries t ?m (take (pos + 1) (pd_key ?it1)) a'))
          (predictive_descend t ?it1 ?m (pos + 1))"
        using True ANode.prems(3,4) tk
        by (intro ANode.IH [OF mem _ rep']) simp_all
      then have "descend_result t ?it1 (hits ?p (entries t ?m (take pos ?p @ [?c]) a'))
          (predictive_descend t ?it1 ?m (pos + 1))"
        unfolding k1 tk .
      then have "descend_result t it (hits ?p (entries t ?m (take pos ?p @ [?c]) a'))
          (predictive_descend t ?it1 ?m (pos + 1))"
        by (rule descend_result_fields) simp_all
      with a' show ?thesis unfolding es run by simp
    qed
  qed
qed

lemma select_rank: "i < length bv \<Longrightarrow> bv ! i \<Longrightarrow> select bv (rank bv i) = i"
proof (induction bv arbitrary: i)
  case Nil
  then show ?case by simp
next
  case (Cons b bs)
  show ?case
  proof (cases i)
    case 0
    with Cons.prems show ?thesis by (simp add: rank_def)
  next
    case (Suc j)
    with Cons.prems have "j < length bs" "bs ! j" by simp_all
    from Cons.IH [OF this] Suc show ?thesis by (simp add: rank_Cons_Suc)
  qed
qed

lemma rank_less: 
  assumes "i < length bv" and "bv ! i"
  shows "rank bv i < length (filter (\<lambda>b. b) bv)"
proof -
  from assms(1) have "bv = take i bv @ bv ! i # drop (Suc i) bv" by (rule id_take_nth_drop)
  then have "filter (\<lambda>b. b) bv = filter (\<lambda>b. b) (take i bv @ bv ! i # drop (Suc i) bv)" by simp
  also have "\<dots> = filter (\<lambda>b. b) (take i bv) @ bv ! i # filter (\<lambda>b. b) (drop (Suc i) bv)"
    using assms(2) by simp
  finally show ?thesis by (simp add: rank_def)
qed

lemma access_entry:
  assumes wf: "well_formed t a" and e: "(m, pm, sm) \<in> set (entries t 0 [] a)"
  shows "unat (to_key_id t m) < num_keys t \<and> access t (to_key_id t m) = Some (Inr (pm @ sm))"
proof -
  let ?tf = "terminal_flags t"
  let ?k = "to_key_id t m"
  from wf have rep: "repr t 0 a" and ti: "table_inverse t"
    and len: "length ?tf \<le> 2 ^ 32" and tl: "length (tail t) \<le> unat ID_MAX"
    and nk: "num_keys t = length (filter (\<lambda>b. b) ?tf)"
    by (simp_all add: well_formed_def)
  from entries_kind [OF rep e]
  have m: "unat m < length ?tf" "?tf ! unat m"
    and kind: "if is_leaf (bc t) m then stored t (unat (link (bc t) m)) sm else sm = []"
    by simp_all
  from rank_less [OF m] nk have r: "rank ?tf (unat m) < num_keys t" by simp
  have "num_keys t \<le> length ?tf" unfolding nk by (rule length_filter_le)
  with r len have "rank ?tf (unat m) < 2 ^ 32" by simp
  then have uk: "unat ?k = rank ?tf (unat m)"
    by (simp add: to_key_id_def unat_of_nat)
  have node: "to_node_id t ?k = m"
    by (simp add: to_node_id_def uk select_rank [OF m])
  from entries_up [OF ti rep e]
  have "access_up t m [] = access_up t 0 (rev pm)" by auto
  then have up: "access_up t m [] = Some (Inr (rev pm))"
    by (subst (asm) (2) access_up.simps) simp
  have tailp: "access_tail t (if is_leaf (bc t) m then link (bc t) m else NOT_FOUND) pm
      = Inr (pm @ sm)"
  proof (cases "is_leaf (bc t) m")
    case True
    with kind access_tail_stored [OF _ tl, of "link (bc t) m" sm pm] show ?thesis by simp
  next
    case False
    with kind show ?thesis by (simp add: access_tail_def)
  qed
  from r uk up tailp node have "access t ?k = Some (Inr (pm @ sm))"
    by (simp add: access_def Let_def)
  with r uk show ?thesis by simp
qed

lemma entry_of_id:
  assumes wf: "well_formed t a" and inr: "unat key_id < num_keys t"
  shows "\<exists>m pm sm. (m, pm, sm) \<in> set (entries t 0 [] a) \<and> to_key_id t m = key_id"
proof -
  let ?tf = "terminal_flags t"
  let ?s = "select ?tf (unat key_id)"
  let ?n = "to_node_id t key_id"
  from wf have len: "length ?tf \<le> 2 ^ 32"
    and nk: "num_keys t = length (filter (\<lambda>b. b) ?tf)"
    and tm: "\<forall>i \<in> {..<length ?tf}. ?tf ! i \<longrightarrow> word_of_nat i \<in> fst ` set (entries t 0 [] a)"
    by (simp_all add: well_formed_def)
  from inr nk have "unat key_id < length (filter (\<lambda>b. b) ?tf)" by simp
  from select_spec [OF this]
  have s: "?s < length ?tf" "?tf ! ?s" "rank ?tf ?s = unat key_id" by simp_all
  from s(1) len have un: "unat ?n = ?s"
    by (simp add: to_node_id_def unat_of_nat)
  from tm s(1) s(2) have "?n \<in> fst ` set (entries t 0 [] a)"
    by (auto simp: to_node_id_def)
  then obtain pm sm where e: "(?n, pm, sm) \<in> set (entries t 0 [] a)" by force
  have "to_key_id t ?n = key_id"
    by (simp add: to_key_id_def un s(3))
  with e show ?thesis by blast
qed

lemma registered_akeys:
  assumes wf: "well_formed t a"
  shows "registered t key \<longleftrightarrow> key \<in> set (akeys a)"
proof -
  have ak: "set (akeys a) = entry_key ` set (entries t 0 [] a)"
  proof -
    have "set (map entry_key (entries t 0 [] a)) = set (map ((@) []) (akeys a))"
      by (simp only: entries_akeys)
    then show ?thesis by simp
  qed
  show ?thesis
  proof
    assume "registered t key"
    then obtain key_id where k: "unat key_id < num_keys t" "access t key_id = Some (Inr key)"
      unfolding registered_def by blast
    from entry_of_id [OF wf k(1)] obtain m pm sm
      where e: "(m, pm, sm) \<in> set (entries t 0 [] a)" and i: "to_key_id t m = key_id" by blast
    from access_entry [OF wf e] i k(2) have "key = pm @ sm" by simp
    then have "key = entry_key (m, pm, sm)" by (simp add: entry_key_simp)
    with e show "key \<in> set (akeys a)" unfolding ak by blast
  next
    assume "key \<in> set (akeys a)"
    then obtain e where e: "e \<in> set (entries t 0 [] a)" and k: "key = entry_key e"
      unfolding ak by blast
    obtain m pm sm where [simp]: "e = (m, pm, sm)" by (cases e)
    from access_entry [OF wf e [simplified]] k show "registered t key"
      unfolding registered_def by (auto simp: entry_key_simp)
  qed
qed

lemma map_append_Nil: "map ((@) []) xs = xs"
  by (induction xs) simp_all

lemma lex_less_irrefl: "\<not> lex_less x x"
  unfolding lex_less_def by (rule lexord_irreflexive) simp

lemma sorted_lex_distinct: "sorted_wrt lex_less xs \<Longrightarrow> distinct xs"
  by (induction xs) (auto simp: lex_less_irrefl)

lemma predictive_collect_first:
  assumes wf: "well_formed t a"
  shows "predictive_collect (make_predictive_iterator t p) [] =
    Some (Inr (map (entry_hit t) (hits p (entries t 0 [] a))))"
proof -
  let ?it0 = "make_predictive_iterator t p"
  let ?itb = "?it0\<lparr>pd_begin_flag := False\<rparr>"
  let ?es = "hits p (entries t 0 [] a)"
  from wf have rep: "repr t 0 a" and alpha: "sorted_wrt (<) (alphabet t)"
    by (simp_all add: well_formed_def)
  have nx: "PredictiveIterator_next ?it0 =
      (case predictive_descend t ?itb 0 0 of
         Inl e \<Rightarrow> Some (Inl e)
       | Inr (Some b, it1) \<Rightarrow> Some (Inr (b, it1))
       | Inr (None, it1) \<Rightarrow> predictive_loop t it1)"
    by (simp add: PredictiveIterator_next_def next_predictive_def make_predictive_iterator_def)
  have "descend_result t ?itb (hits (pd_key ?itb) (entries t 0 (take 0 (pd_key ?itb)) a))
      (predictive_descend t ?itb 0 0)"
    by (rule descend_correct [OF rep]) (simp_all add: make_predictive_iterator_def)
  then have d: "descend_result t ?itb ?es (predictive_descend t ?itb 0 0)"
    by (simp add: make_predictive_iterator_def)
  from d consider
    (stack) it' fs where "predictive_descend t ?itb 0 0 = Inr (None, it')"
      "list_all2 (frame_rel t) (pd_stack it') fs" "frames_inv (pd_buf it') fs"
      "frames_out t fs = ?es" "pd_trie it' = pd_trie ?itb" "pd_end_flag it' = pd_end_flag ?itb"
      "pd_begin_flag it' = pd_begin_flag ?itb"
  | (miss) it' where "predictive_descend t ?itb 0 0 = Inr (Some False, it')" "?es = []"
  | (hit) it' e where "predictive_descend t ?itb 0 0 = Inr (Some True, it')" "?es = [e]"
      "pd_buf it' = entry_key e" "pd_id it' = to_key_id t (fst e)" "pd_end_flag it'"
      "pd_trie it' = pd_trie ?itb"
    unfolding descend_result_def by blast
  then show ?thesis
  proof cases
    case stack
    from stack(5,6,7) have f: "pd_trie it' = Some t" "\<not> pd_end_flag it'" "\<not> pd_begin_flag it'"
      by (simp_all add: make_predictive_iterator_def)
    from f have "PredictiveIterator_next it' = predictive_loop t it'"
      by (simp add: PredictiveIterator_next_def next_predictive_def)
    also have "\<dots> = PredictiveIterator_next ?it0" unfolding nx stack(1) by simp
    finally have "predictive_collect ?it0 [] = predictive_collect it' []"
      by (subst predictive_collect.simps, subst (2) predictive_collect.simps) simp
    also from predictive_collect_loop [OF alpha f stack(2,3), of "[]"] stack(4)
    have "predictive_collect it' [] = Some (Inr (map (entry_hit t) ?es))" by simp
    finally show ?thesis .
  next
    case miss
    have "PredictiveIterator_next ?it0 = Some (Inr (False, it'))" unfolding nx miss(1) by simp
    then have "predictive_collect ?it0 [] = Some (Inr [])"
      by (subst predictive_collect.simps) simp
    with miss(2) show ?thesis by simp
  next
    case hit
    from hit(5,6) have "PredictiveIterator_next it' = Some (Inr (False, it'))"
      by (simp add: PredictiveIterator_next_def next_predictive_def make_predictive_iterator_def)
    then have "predictive_collect it' [(pd_buf it', pd_id it')] =
        Some (Inr [(pd_buf it', pd_id it')])"
      by (subst predictive_collect.simps) simp
    moreover have "PredictiveIterator_next ?it0 = Some (Inr (True, it'))"
      unfolding nx hit(1) by simp
    then have "predictive_collect ?it0 [] = predictive_collect it' [(pd_buf it', pd_id it')]"
      by (subst predictive_collect.simps) (simp add: PredictiveIterator_key_def)
    ultimately show ?thesis using hit(2,3,4) by (simp add: entry_hit_def)
  qed
qed

lemma predictive_collect_ant_an:
  "predictive_collect (make_predictive_iterator trie_ant [97, 110]) [] =
     Some (Inr [([97, 110], 1), ([97, 110, 100], 2), ([97, 110, 116], 3)])"
  by code_simp

text \<open>
  C2. On a well-formed dictionary, for every input \<open>p\<close>, calling \<^verbatim>\<open>next\<close> on a
  \<^verbatim>\<open>PredictiveIterator\<close> made from \<open>p\<close> until it returns \<^verbatim>\<open>false\<close> ends, without an
  error, and the keys it reported are exactly the registered keys that start with \<open>p\<close>,
  each of them once, in strictly ascending lexicographic order of their bytes. In that order
  a key comes before every key it is a proper prefix of, so a terminal node is reported
  before its descendants. The registered keys are the keys of the trie that the dictionary
  represents, so the reported list is also that trie's list of keys cut down to those that
  start with \<open>p\<close>.
\<close>

theorem predictive_complete:
  assumes wf: "well_formed t a"
  shows "\<exists>ks. predictive_collect (make_predictive_iterator t p) [] = Some (Inr ks) \<and>
    set (map fst ks) = {key. registered t key \<and> prefix p key} \<and>
    sorted_wrt lex_less (map fst ks) \<and> distinct (map fst ks) \<and>
    map fst ks = filter (prefix p) (akeys a)"
proof -
  let ?ks = "map (entry_hit t) (hits p (entries t 0 [] a))"
  from wf have rep: "repr t 0 a" by (simp add: well_formed_def)
  have "map fst ?ks = map entry_key (hits p (entries t 0 [] a))"
    by (simp add: entry_hit_def comp_def)
  also have "\<dots> = filter (prefix p) (map entry_key (entries t 0 [] a))"
    by (simp add: hits_def filter_map comp_def)
  also have "map entry_key (entries t 0 [] a) = map ((@) []) (akeys a)"
    by (rule entries_akeys)
  finally have keys: "map fst ?ks = filter (prefix p) (akeys a)" by (simp add: map_append_Nil)
  have "set (map fst ?ks) = {key. registered t key \<and> prefix p key}"
    unfolding keys using registered_akeys [OF wf] by auto
  moreover from akeys_sorted [OF rep] have srt: "sorted_wrt lex_less (map fst ?ks)"
    unfolding keys by (rule sorted_wrt_filter)
  moreover from srt have "distinct (map fst ?ks)" by (rule sorted_lex_distinct)
  ultimately show ?thesis using predictive_collect_first [OF wf, of p] keys by blast
qed

theorem predictive_complete_witness:
  "well_formed trie_ant atrie_ant \<and>
   (\<exists>ks. predictive_collect (make_predictive_iterator trie_ant [97, 110]) [] = Some (Inr ks) \<and>
     set (map fst ks) = {key. registered trie_ant key \<and> prefix [97, 110] key} \<and>
     sorted_wrt lex_less (map fst ks) \<and> distinct (map fst ks) \<and>
     map fst ks = filter (prefix [97, 110]) (akeys atrie_ant))"
  using well_formed_ant predictive_complete [OF well_formed_ant, of "[97, 110]"] by blast

end
